theory Spec2Isabelle
  imports Complex_Main "HOL-Library.Word" "HOL-Library.Sublist" "HOL-Library.Log_Nat"
begin

section \<open>Strings of the scroll-video generator\<close>

text \<open>
  The development follows \<open>generateScrollingScriptVideo\<close> of \<open>src/videoGenerator.ts\<close>.
  A JavaScript string is a sequence of 16-bit code units. Numbers of the source are
  IEEE doubles. For the layout and the scroll position they are exact reals (line indices
  are integers), and the one place where the source leaves the finite numbers (a division
  by a zero total complexity) is written out with \<open>jsnum\<close> below. For the durations of
  the sections, where the rounding is the question, the arithmetic of the doubles is
  written out as well.
\<close>

type_synonym jschar = "16 word"
type_synonym jsstring = "jschar list"

definition js :: "string \<Rightarrow> jsstring" where
  \<comment> \<open>an ASCII literal as code units\<close>
  "js s = map of_char s"

definition newline :: jschar where
  "newline = 0x0A"

definition space :: jschar where
  "space = 0x20"

definition isWhiteSpace :: "jschar \<Rightarrow> bool" where
  \<comment> \<open>the class \<open>\s\<close> of a regular expression, which is also what \<open>trim\<close> strips:
      WhiteSpace and LineTerminator of ECMAScript\<close>
  "isWhiteSpace c =
     (c \<in> {0x09, 0x0A, 0x0B, 0x0C, 0x0D, 0x20, 0xA0, 0x1680, 0x2028, 0x2029,
            0x202F, 0x205F, 0x3000, 0xFEFF}
      \<or> (0x2000 \<le> c \<and> c \<le> 0x200A))"

definition isWordChar :: "jschar \<Rightarrow> bool" where
  \<comment> \<open>the class \<open>\w\<close>: \<open>[A-Za-z0-9_]\<close>\<close>
  "isWordChar c =
     ((0x30 \<le> c \<and> c \<le> 0x39) \<or> (0x41 \<le> c \<and> c \<le> 0x5A) \<or> c = 0x5F
      \<or> (0x61 \<le> c \<and> c \<le> 0x7A))"

definition trim :: "jsstring \<Rightarrow> jsstring" where
  "trim s = rev (dropWhile isWhiteSpace (rev (dropWhile isWhiteSpace s)))"

fun split :: "jschar \<Rightarrow> jsstring \<Rightarrow> jsstring list" where
  \<comment> \<open>\<open>s.split(sep)\<close> for a separator of one code unit; the result is never empty\<close>
  "split sep [] = [[]]"
| "split sep (c # cs) =
     (if c = sep then [] # split sep cs
      else (c # hd (split sep cs)) # tl (split sep cs))"

definition matchBlankLine :: "jsstring \<Rightarrow> nat option" where
  \<comment> \<open>the length of the match of \<open>/\n\s*\n/\<close> at the head of the string, if there is one:
      a newline, then the greedy \<open>\s*\<close> backtracks to the last newline of the whitespace
      run that follows\<close>
  "matchBlankLine s =
     (case s of
        [] \<Rightarrow> None
      | c # rest \<Rightarrow>
          if c \<noteq> newline then None
          else
            let run = takeWhile isWhiteSpace rest;
                k = length (dropWhile (\<lambda>x. x \<noteq> newline) (rev run))
            in if k = 0 then None else Some (k + 1))"

function splitParagraphs :: "jsstring \<Rightarrow> jsstring list" where
  \<comment> \<open>\<open>script.split(/\n\s*\n/)\<close>: the leftmost match is cut out, the search goes on after it\<close>
  "splitParagraphs [] = [[]]"
| "splitParagraphs (c # cs) =
     (case matchBlankLine (c # cs) of
        Some k \<Rightarrow> [] # splitParagraphs (drop k (c # cs))
      | None \<Rightarrow> (c # hd (splitParagraphs cs)) # tl (splitParagraphs cs))"
  by pat_completeness auto
termination
  by (relation "measure length")
     (auto simp: matchBlankLine_def Let_def split: list.splits if_splits)

section \<open>Complexity of a source line\<close>

definition hasCode :: "jsstring \<Rightarrow> bool" where
  \<comment> \<open>\<open>/[(){}\[\]<>]/.test(line)\<close>\<close>
  "hasCode line = list_ex (\<lambda>c. c \<in> {0x28, 0x29, 0x7B, 0x7D, 0x5B, 0x5D, 0x3C, 0x3E}) line"

definition techKeywords :: "jsstring list" where
  "techKeywords = map js [''function'', ''class'', ''const'', ''let'', ''var'', ''import'',
                      ''export'', ''async'', ''await'']"

definition isWordOpt :: "jschar option \<Rightarrow> bool" where
  "isWordOpt c = (case c of None \<Rightarrow> False | Some x \<Rightarrow> isWordChar x)"

definition headOpt :: "jsstring \<Rightarrow> jschar option" where
  "headOpt s = (case s of [] \<Rightarrow> None | c # _ \<Rightarrow> Some c)"

definition isBoundary :: "jschar option \<Rightarrow> jschar option \<Rightarrow> bool" where
  \<comment> \<open>\<open>\b\<close> between two neighbouring positions (None is the edge of the string)\<close>
  "isBoundary a b = (isWordOpt a \<noteq> isWordOpt b)"

definition keywordAt :: "jschar option \<Rightarrow> jsstring \<Rightarrow> bool" where
  \<comment> \<open>\<open>\b(function|class|...)\b\<close> matches at the head of \<open>s\<close>, \<open>prev\<close> being the code unit before\<close>
  "keywordAt prev s =
     (isBoundary prev (headOpt s) \<and>
      list_ex (\<lambda>kw. prefix kw s \<and> isBoundary (Some (last kw)) (headOpt (drop (length kw) s)))
        techKeywords)"

fun searchKeyword :: "jschar option \<Rightarrow> jsstring \<Rightarrow> bool" where
  "searchKeyword prev [] = keywordAt prev []"
| "searchKeyword prev (c # cs) = (keywordAt prev (c # cs) \<or> searchKeyword (Some c) cs)"

definition hasTech :: "jsstring \<Rightarrow> bool" where
  "hasTech line = searchKeyword None line"

definition avgWordLength :: "jsstring list \<Rightarrow> real" where
  \<comment> \<open>\<open>words.reduce((sum, w) => sum + w.length, 0) / words.length\<close>\<close>
  "avgWordLength words = real (sum_list (map length words)) / real (length words)"

definition lineComplexity :: "jsstring \<Rightarrow> real" where
  "lineComplexity line =
     avgWordLength (split space line) * (if hasCode line then 1.5 else 1)
       * (if hasTech line then 1.3 else 1)"

section \<open>Layout: wrapped lines and sections\<close>

definition width :: real where "width = 1280"
definition height :: real where "height = 720"
definition paddingX :: real where "paddingX = 80"
definition paddingY :: real where "paddingY = 60"
definition fontSize :: real where "fontSize = 28"
definition lineSpacing :: real where "lineSpacing = 1.8"

definition drawableWidth :: real where
  "drawableWidth = width - paddingX * 2"

definition lineHeight :: real where
  "lineHeight = fontSize * lineSpacing"

record scrollSection =
  startLine :: int
  endLine :: int
  complexity :: real

record layout =
  wrappedLines :: "jsstring list"
  sections :: "scrollSection list"
  currentLine :: int

definition pushLine :: "jsstring \<Rightarrow> layout \<Rightarrow> layout" where
  \<comment> \<open>\<open>wrappedLines.push(text); currentLine++\<close>\<close>
  "pushLine text st =
     st\<lparr>wrappedLines := wrappedLines st @ [text], currentLine := currentLine st + 1\<rparr>"

definition packWord :: "(jsstring \<Rightarrow> real) \<Rightarrow> jsstring \<Rightarrow> jsstring \<times> layout \<Rightarrow> jsstring \<times> layout" where
  \<comment> \<open>the body of \<open>words.forEach\<close>; \<open>measureText\<close> is \<open>ctx.measureText(.).width\<close> of the canvas
      library, a parameter\<close>
  "packWord measureText w acc =
     (case acc of (buf, st) \<Rightarrow>
        let test = (if buf \<noteq> [] then buf @ [space] @ w else w)
        in if measureText test \<le> drawableWidth then (test, st)
           else (w, pushLine buf st))"

fun packWords :: "(jsstring \<Rightarrow> real) \<Rightarrow> jsstring list \<Rightarrow> jsstring \<times> layout \<Rightarrow> jsstring \<times> layout" where
  "packWords measureText [] acc = acc"
| "packWords measureText (w # ws) acc = packWords measureText ws (packWord measureText w acc)"

definition flushLine :: "jsstring \<times> layout \<Rightarrow> layout" where
  \<comment> \<open>the \<open>wrappedLines.push(buf); currentLine++\<close> after the word loop\<close>
  "flushLine acc = (case acc of (buf, st) \<Rightarrow> pushLine buf st)"

definition processLine :: "(jsstring \<Rightarrow> real) \<Rightarrow> jsstring \<Rightarrow> layout \<times> real \<Rightarrow> layout \<times> real" where
  \<comment> \<open>the body of \<open>lines.forEach\<close>; the second component is \<open>complexityScore\<close>\<close>
  "processLine measureText line acc =
     (case acc of (st, complexityScore) \<Rightarrow>
        if trim line = [] then (pushLine [] st, complexityScore)
        else (flushLine (packWords measureText (split space line) ([], st)),
              complexityScore + lineComplexity line))"

fun processLines :: "(jsstring \<Rightarrow> real) \<Rightarrow> jsstring list \<Rightarrow> layout \<times> real \<Rightarrow> layout \<times> real" where
  "processLines measureText [] acc = acc"
| "processLines measureText (l # ls) acc = processLines measureText ls (processLine measureText l acc)"

definition processParagraph :: "(jsstring \<Rightarrow> real) \<Rightarrow> nat \<Rightarrow> nat \<Rightarrow> jsstring \<Rightarrow> layout \<Rightarrow> layout" where
  \<comment> \<open>the body of \<open>paragraphs.forEach\<close>; \<open>n\<close> is \<open>paragraphs.length\<close>\<close>
  "processParagraph measureText n pIndex paragraph st =
     (let sectionStart = currentLine st;
          st1 = (if pIndex > 0 then pushLine [] st else st);
          (st2, complexityScore) = processLines measureText (split newline paragraph) (st1, 0);
          st3 = st2\<lparr>sections := sections st2 @
                  [\<lparr>startLine = sectionStart, endLine = currentLine st2 - 1,
                    complexity = complexityScore\<rparr>]\<rparr>
      in if int pIndex < int n - 1 then pushLine [] st3 else st3)"

fun forEachParagraph :: "(jsstring \<Rightarrow> real) \<Rightarrow> nat \<Rightarrow> nat \<Rightarrow> jsstring list \<Rightarrow> layout \<Rightarrow> layout" where
  "forEachParagraph measureText n pIndex [] st = st"
| "forEachParagraph measureText n pIndex (p # ps) st =
     forEachParagraph measureText n (pIndex + 1) ps (processParagraph measureText n pIndex p st)"

definition emptyLayout :: layout where
  \<comment> \<open>\<open>const wrappedLines = []; const sections = []; let currentLine = 0\<close>\<close>
  "emptyLayout = \<lparr>wrappedLines = [], sections = [], currentLine = 0\<rparr>"

definition layoutScript :: "(jsstring \<Rightarrow> real) \<Rightarrow> jsstring \<Rightarrow> layout" where
  \<comment> \<open>phase 1 of \<open>generateScrollingScriptVideo\<close>\<close>
  "layoutScript measureText script =
     (let paragraphs = splitParagraphs script
      in forEachParagraph measureText (length paragraphs) 0 paragraphs emptyLayout)"

definition monoWidth :: "jsstring \<Rightarrow> real" where
  \<comment> \<open>a sample metrics provider for evaluation: 16 pixels for every code unit\<close>
  "monoWidth s = 16 * real (length s)"

section \<open>Numbers that may leave the finite range\<close>

text \<open>
  The duration of a section is \<open>(sec.complexity / totalComplexity) * availableDuration\<close>,
  and \<open>totalComplexity\<close> may be zero. A JavaScript division by zero does not raise: it gives
  \<open>NaN\<close> or an infinity, which then flows into the sums and into the text of the
  expression. \<open>jsnum\<close> keeps these values apart from the finite ones. A zero is read as
  \<open>+0\<close> (the source reaches \<open>-0\<close> only from a negative available duration).
\<close>

datatype jsnum = Fin real | NaN | PosInf | NegInf

definition infOf :: "bool \<Rightarrow> jsnum" where
  "infOf positive = (if positive then PosInf else NegInf)"

fun jsadd :: "jsnum \<Rightarrow> jsnum \<Rightarrow> jsnum" where
  "jsadd (Fin a) (Fin b) = Fin (a + b)"
| "jsadd NaN _ = NaN"
| "jsadd _ NaN = NaN"
| "jsadd PosInf NegInf = NaN"
| "jsadd NegInf PosInf = NaN"
| "jsadd PosInf _ = PosInf"
| "jsadd _ PosInf = PosInf"
| "jsadd NegInf _ = NegInf"
| "jsadd _ NegInf = NegInf"



fun jsmul :: "jsnum \<Rightarrow> jsnum \<Rightarrow> jsnum" where
  "jsmul (Fin a) (Fin b) = Fin (a * b)"
| "jsmul NaN _ = NaN"
| "jsmul _ NaN = NaN"
| "jsmul (Fin a) PosInf = (if a = 0 then NaN else infOf (0 < a))"
| "jsmul (Fin a) NegInf = (if a = 0 then NaN else infOf (a < 0))"
| "jsmul PosInf (Fin b) = (if b = 0 then NaN else infOf (0 < b))"
| "jsmul NegInf (Fin b) = (if b = 0 then NaN else infOf (b < 0))"
| "jsmul PosInf PosInf = PosInf"
| "jsmul NegInf NegInf = PosInf"
| "jsmul PosInf NegInf = NegInf"
| "jsmul NegInf PosInf = NegInf"

fun jsdiv :: "jsnum \<Rightarrow> jsnum \<Rightarrow> jsnum" where
  "jsdiv (Fin a) (Fin b) =
     (if b = 0 then (if a = 0 then NaN else infOf (0 < a)) else Fin (a / b))"
| "jsdiv NaN _ = NaN"
| "jsdiv _ NaN = NaN"
| "jsdiv (Fin a) _ = Fin 0"
| "jsdiv PosInf (Fin b) = infOf (0 \<le> b)"
| "jsdiv NegInf (Fin b) = infOf (b < 0)"
| "jsdiv _ _ = NaN"


section \<open>The scroll expression\<close>

text \<open>
  \<open>generateScrollExpression\<close> concatenates the text of an expression for the encoder's
  crop filter. The text is kept as the sequence of its pieces, the numbers printed into it
  being pieces of their own: \<open>IfOpen\<close> is \<open>if(\<close>, \<open>LtCond a\<close> is \<open>lt(t,a)\<close>,
  \<open>Formula start t0 d h\<close> is \<open>start+((t-t0)/d)*h\<close>, \<open>Close\<close> is \<open>)\<close>.
\<close>

datatype token =
  IfOpen | LtCond jsnum | Comma | Number real | Formula real jsnum jsnum real | Close

definition initialDelay :: real where "initialDelay = 6"
definition speedFactor :: real where "speedFactor = 0.7"

definition totalComplexityOf :: "scrollSection list \<Rightarrow> real" where
  \<comment> \<open>\<open>sections.reduce((s, sec) => s + sec.complexity, 0)\<close>\<close>
  "totalComplexityOf secs = foldl (\<lambda>s sec. s + complexity sec) 0 secs"

definition secDurOf :: "real \<Rightarrow> real \<Rightarrow> scrollSection \<Rightarrow> jsnum" where
  \<comment> \<open>\<open>secDur = (sec.complexity / totalComplexity) * availableDuration\<close>\<close>
  "secDurOf totalComplexity availableDuration sec =
     jsmul (jsdiv (Fin (complexity sec)) (Fin totalComplexity)) (Fin availableDuration)"

fun sectionsText ::
  "real \<Rightarrow> real \<Rightarrow> token list \<times> jsnum \<Rightarrow> scrollSection list \<Rightarrow> token list \<times> jsnum" where
  \<comment> \<open>the \<open>sections.forEach\<close> of \<open>generateScrollExpression\<close>; the state is the text
      \<open>expr\<close> written so far and the running time \<open>t\<close>\<close>
  "sectionsText totalComplexity availableDuration acc [] = acc"
| "sectionsText totalComplexity availableDuration acc (sec # secs) =
     (case acc of (expr, t) \<Rightarrow>
        let secDur = secDurOf totalComplexity availableDuration sec;
            start = real_of_int (startLine sec) * lineHeight + paddingY;
            stop = (real_of_int (endLine sec) + 1) * lineHeight + paddingY;
            h = stop - start;
            formula = Formula start t (jsdiv secDur (Fin speedFactor)) h
        in sectionsText totalComplexity availableDuration
             (expr @ [IfOpen, LtCond (jsadd t secDur), Comma, formula, Comma], jsadd t secDur)
             secs)"

definition generateScrollExpression :: "layout \<Rightarrow> real \<Rightarrow> token list" where
  \<comment> \<open>\<open>duration\<close> is the probed audio duration. The text opens one \<open>if(\<close> before the
      loop and one for each section, and ends with \<open>")".repeat(sections.length)\<close>\<close>
  "generateScrollExpression lay duration =
     (let totalComplexity = totalComplexityOf (sections lay);
          availableDuration = duration - initialDelay;
          totalHeight = real (length (wrappedLines lay)) * lineHeight + paddingY * 2 + height;
          expr0 = [IfOpen, LtCond (Fin initialDelay), Comma, Number paddingY, Comma];
          (expr, t) = sectionsText totalComplexity availableDuration (expr0, Fin initialDelay)
                        (sections lay)
      in expr @ [Number (totalHeight - height)] @ replicate (length (sections lay)) Close)"

definition sectionChunk :: "real \<Rightarrow> real \<Rightarrow> jsnum \<Rightarrow> scrollSection \<Rightarrow> token list" where
  \<comment> \<open>the text that one round of the loop appends\<close>
  "sectionChunk totalComplexity availableDuration t sec =
     (let secDur = secDurOf totalComplexity availableDuration sec;
          start = real_of_int (startLine sec) * lineHeight + paddingY;
          stop = (real_of_int (endLine sec) + 1) * lineHeight + paddingY;
          h = stop - start
      in [IfOpen, LtCond (jsadd t secDur), Comma,
          Formula start t (jsdiv secDur (Fin speedFactor)) h, Comma])"

definition unclosed :: "token list \<Rightarrow> int" where
  \<comment> \<open>the number of \<open>if(\<close> that are opened and not closed\<close>
  "unclosed text = int (count_list text IfOpen) - int (count_list text Close)"

text \<open>
  The encoder reads an expression as a tree of conditionals
  \<open>if(lt(t,a),e1,e2)\<close>. \<open>render\<close> is the text of a tree; \<open>sectionsExpr\<close> and
  \<open>scrollTree\<close> are the conditionals that the loop writes, nested as their \<open>if(\<close> open.
  \<open>Linear start t0 d h\<close> is the formula \<open>start+((t-t0)/d)*h\<close>.
\<close>

datatype expr = Const real | Linear real jsnum jsnum real | IfLt jsnum expr expr

fun render :: "expr \<Rightarrow> token list" where
  "render (Const c) = [Number c]"
| "render (Linear start t0 d h) = [Formula start t0 d h]"
| "render (IfLt a e1 e2) = [IfOpen, LtCond a, Comma] @ render e1 @ [Comma] @ render e2 @ [Close]"

fun sectionsExpr :: "real \<Rightarrow> real \<Rightarrow> real \<Rightarrow> jsnum \<Rightarrow> scrollSection list \<Rightarrow> expr" where
  "sectionsExpr totalComplexity availableDuration tail t [] = Const tail"
| "sectionsExpr totalComplexity availableDuration tail t (sec # secs) =
     (let secDur = secDurOf totalComplexity availableDuration sec;
          start = real_of_int (startLine sec) * lineHeight + paddingY;
          stop = (real_of_int (endLine sec) + 1) * lineHeight + paddingY;
          h = stop - start
      in IfLt (jsadd t secDur) (Linear start t (jsdiv secDur (Fin speedFactor)) h)
           (sectionsExpr totalComplexity availableDuration tail (jsadd t secDur) secs))"

definition scrollTree :: "layout \<Rightarrow> real \<Rightarrow> expr" where
  "scrollTree lay duration =
     (let totalComplexity = totalComplexityOf (sections lay);
          availableDuration = duration - initialDelay;
          totalHeight = real (length (wrappedLines lay)) * lineHeight + paddingY * 2 + height
      in IfLt (Fin initialDelay) (Const paddingY)
           (sectionsExpr totalComplexity availableDuration (totalHeight - height)
              (Fin initialDelay) (sections lay)))"



definition sectionDurations :: "scrollSection list \<Rightarrow> real \<Rightarrow> jsnum list" where
  \<comment> \<open>the values \<open>secDur\<close> takes in the loop, in order\<close>
  "sectionDurations secs duration =
     map (secDurOf (totalComplexityOf secs) (duration - initialDelay)) secs"


section \<open>The pipeline and its temporary files\<close>

text \<open>
  The external calls of \<open>generateScrollingScriptVideo\<close> (the canvas, the database, ffprobe
  and the two ffmpeg runs) are parameters: each either resolves or rejects. The body runs
  inside \<open>try { ... } catch (err) { console.error(...); throw err; }\<close>, so a rejection ends
  the invocation with the files of \<open>/tmp\<close> as they are at that point.
\<close>

datatype tmpFile = TmpImage | TmpAudio | TmpVideo | TmpFinal

datatype failure =
  PngStreamError | SaveImageError | ProbeError | EncodeError | MuxError | SaveVideoError

datatype encoderCall = ScrollEncode "token list" real | MuxAudio

datatype video = FinalVideo

record collaborators =
  measureWidth :: "jsstring \<Rightarrow> real"
  pngStream :: bool
  saveScrollImage :: bool
  getAudioDuration :: "real option"
  scrollEncode :: "token list \<Rightarrow> real \<Rightarrow> bool"
  muxAudio :: bool
  saveScrollVideo :: bool

record outcome =
  result :: "failure + video"
  tmpFiles :: "tmpFile set"
  encoderCalls :: "encoderCall list"

definition generateScrollingScriptVideo :: "collaborators \<Rightarrow> jsstring \<Rightarrow> outcome" where
  "generateScrollingScriptVideo env script =
     (let lay = layoutScript (measureWidth env) script
      in if \<not> pngStream env then
           \<lparr>result = Inl PngStreamError, tmpFiles = {}, encoderCalls = []\<rparr>
         else if \<not> saveScrollImage env then
           \<lparr>result = Inl SaveImageError, tmpFiles = {}, encoderCalls = []\<rparr>
         else
           let files1 = insert TmpAudio (insert TmpImage {})
           in case getAudioDuration env of
                None \<Rightarrow> \<lparr>result = Inl ProbeError, tmpFiles = files1, encoderCalls = []\<rparr>
              | Some duration \<Rightarrow>
                  let e = generateScrollExpression lay duration;
                      calls1 = [ScrollEncode e duration]
                  in if \<not> scrollEncode env e duration then
                       \<lparr>result = Inl EncodeError, tmpFiles = files1, encoderCalls = calls1\<rparr>
                     else
                       let files2 = insert TmpVideo files1;
                           calls2 = calls1 @ [MuxAudio]
                       in if \<not> muxAudio env then
                            \<lparr>result = Inl MuxError, tmpFiles = files2, encoderCalls = calls2\<rparr>
                          else
                            let files3 = insert TmpFinal files2
                            in if \<not> saveScrollVideo env then
                                 \<lparr>result = Inl SaveVideoError, tmpFiles = files3,
                                   encoderCalls = calls2\<rparr>
                               else
                                 \<lparr>result = Inr FinalVideo,
                                   tmpFiles = files3 - {TmpImage} - {TmpAudio} - {TmpVideo}
                                                - {TmpFinal},
                                   encoderCalls = calls2\<rparr>)"

section \<open>Predicates on the result of the layout\<close>

definition sectionLines :: "scrollSection \<Rightarrow> int list" where
  "sectionLines sec = [startLine sec..endLine sec]"

definition sectionsPartition :: "scrollSection list \<Rightarrow> nat \<Rightarrow> bool" where
  \<comment> \<open>the line indices of the sections, in order, are exactly \<open>0, 1, ..., n - 1\<close>:
      every line in one section, no gap, no overlap\<close>
  "sectionsPartition secs n = (concat (map sectionLines secs) = [0..int n - 1])"

fun chained :: "scrollSection list \<Rightarrow> bool" where
  \<comment> \<open>every section has at least one line and the next one starts two lines after its end\<close>
  "chained [] = True"
| "chained [s] = (startLine s \<le> endLine s)"
| "chained (s # s' # rest) =
     (startLine s \<le> endLine s \<and> startLine s' = endLine s + 2 \<and> chained (s' # rest))"

definition scriptWords :: "jsstring \<Rightarrow> jsstring list" where
  \<comment> \<open>the words of all lines of all paragraphs\<close>
  "scriptWords script =
     concat (map (split space) (concat (map (split newline) (splitParagraphs script))))"

definition twoParagraphs :: jsstring where
  \<comment> \<open>the script \<open>"a\n\nb"\<close>\<close>
  "twoParagraphs = js ''a'' @ [newline, newline] @ js ''b''"

definition allResolve :: "real \<Rightarrow> collaborators" where
  \<comment> \<open>every external call resolves; the probe reports the given duration\<close>
  "allResolve duration =
     \<lparr>measureWidth = monoWidth, pngStream = True, saveScrollImage = True,
       getAudioDuration = Some duration, scrollEncode = (\<lambda>e d. True), muxAudio = True,
       saveScrollVideo = True\<rparr>"

definition synced :: "layout \<Rightarrow> bool" where
  \<comment> \<open>\<open>currentLine\<close> counts the wrapped lines\<close>
  "synced st = (currentLine st = int (length (wrappedLines st)))"

definition closedLayout :: "layout \<Rightarrow> bool" where
  \<comment> \<open>the shape of the sections once the last paragraph is done\<close>
  "closedLayout st =
     (sections st \<noteq> [] \<and> startLine (hd (sections st)) = 0 \<and> chained (sections st)
      \<and> endLine (last (sections st)) = int (length (wrappedLines st)) - 1)"

definition betweenParagraphs :: "layout \<Rightarrow> bool" where
  \<comment> \<open>the shape of the state after a paragraph that is not the last: its closing blank
      line is pushed and belongs to no section\<close>
  "betweenParagraphs st =
     (sections st \<noteq> [] \<and> startLine (hd (sections st)) = 0 \<and> chained (sections st)
      \<and> endLine (last (sections st)) = currentLine st - 2 \<and> synced st)"




definition fitsOrWord :: "(jsstring \<Rightarrow> real) \<Rightarrow> jsstring set \<Rightarrow> jsstring \<Rightarrow> bool" where
  "fitsOrWord m W l = (m l \<le> drawableWidth \<or> l \<in> W)"

definition linesOk :: "(jsstring \<Rightarrow> real) \<Rightarrow> jsstring set \<Rightarrow> layout \<Rightarrow> bool" where
  "linesOk m W st = list_all (fitsOrWord m W) (wrappedLines st)"

definition posterWidth :: "jsstring \<Rightarrow> real" where
  \<comment> \<open>a second sample metrics provider: 600 pixels for every code unit\<close>
  "posterWidth s = 600 * real (length s)"

definition longWord :: jsstring where
  \<comment> \<open>the word \<open>xx\<close>: 1200 pixels for \<open>posterWidth\<close>, wider than the 1120 drawable\<close>
  "longWord = [0x78, 0x78]"

definition encodeRejects :: "real \<Rightarrow> collaborators" where
  \<comment> \<open>as \<open>allResolve\<close>, but the first ffmpeg run (the scroll video) rejects\<close>
  "encodeRejects duration = (allResolve duration)\<lparr>scrollEncode := (\<lambda>e d. False)\<rparr>"

section \<open>Binary64 arithmetic\<close>

text \<open>
  The numbers of the source are IEEE 754 doubles. For the durations the rounding matters, so
  the arithmetic of the duration loop is written out on finite doubles: \<open>Double m e\<close> stands
  for \<open>m * 2^e\<close>, a result is rounded to 53 significant bits, to the nearest and a tie to the
  even mantissa, with gradual underflow at \<open>2^-1074\<close>. \<open>None\<close> is returned where the source
  obtains an infinity or \<open>NaN\<close> (an overflow, a division by zero).
\<close>

datatype double = Double (mantissa: int) (exponent: int)

definition valueOf :: "double \<Rightarrow> real" where
  "valueOf x = real_of_int (mantissa x) * 2 powi exponent x"

definition nearestEven :: "int \<Rightarrow> int \<Rightarrow> int" where
  \<comment> \<open>\<open>m / 2^k\<close> rounded to the nearest integer, a tie to the even one (\<open>k > 0\<close>)\<close>
  "nearestEven m k =
     (let q = m div 2 ^ nat k; r = m mod 2 ^ nat k; half = 2 ^ nat (k - 1)
      in if r < half then q else if half < r then q + 1 else if even q then q else q + 1)"

definition roundFinite :: "int \<Rightarrow> int \<Rightarrow> double" where
  \<comment> \<open>\<open>m * 2^e\<close> rounded to 53 significant bits, or to a multiple of \<open>2^-1074\<close> where
      that is coarser (gradual underflow); the exponent is not bounded above here\<close>
  "roundFinite m e =
     (let k = max (bitlen \<bar>m\<bar> - 53) (- 1074 - e)
      in if k \<le> 0 then Double m e else Double (nearestEven m k) (e + k))"

definition overflows :: "double \<Rightarrow> bool" where
  \<comment> \<open>the magnitude is \<open>2^1024\<close> or more\<close>
  "overflows x = (mantissa x \<noteq> 0 \<and> 1024 < bitlen \<bar>mantissa x\<bar> + exponent x)"

definition roundTo :: "int \<Rightarrow> int \<Rightarrow> double option" where
  \<comment> \<open>the double nearest to \<open>m * 2^e\<close>, ties to even; \<open>None\<close> where IEEE gives an infinity\<close>
  "roundTo m e = (let x = roundFinite m e in if overflows x then None else Some x)"

definition dadd :: "double \<Rightarrow> double \<Rightarrow> double option" where
  \<comment> \<open>\<open>x + y\<close>: the exact sum over the smaller exponent, rounded once\<close>
  "dadd x y =
     (let e = min (exponent x) (exponent y)
      in roundTo (mantissa x * 2 ^ nat (exponent x - e) + mantissa y * 2 ^ nat (exponent y - e)) e)"

definition dsub :: "double \<Rightarrow> double \<Rightarrow> double option" where
  \<comment> \<open>\<open>x - y\<close>\<close>
  "dsub x y = dadd x (Double (- mantissa y) (exponent y))"

definition dmul :: "double \<Rightarrow> double \<Rightarrow> double option" where
  \<comment> \<open>\<open>x * y\<close>: the exact product, rounded once\<close>
  "dmul x y = roundTo (mantissa x * mantissa y) (exponent x + exponent y)"

definition ddiv :: "double \<Rightarrow> double \<Rightarrow> double option" where
  \<comment> \<open>\<open>x / y\<close>: the quotient of the mantissas to at least 56 bits; where the division
      leaves a remainder, one more bit is set below the quotient, so that the rounding
      sees on which side of a half the exact quotient lies\<close>
  "ddiv x y =
     (if mantissa y = 0 then None
      else
        let s = nat (max 0 (bitlen (abs (mantissa y)) - bitlen (abs (mantissa x)) + 56));
            n = mantissa x * 2 ^ s;
            q = n div mantissa y;
            r = n mod mantissa y
        in if r = 0 then roundTo q (exponent x - exponent y - int s)
           else roundTo (2 * q + 1) (exponent x - exponent y - int s - 1))"

subsection \<open>The duration loop on doubles\<close>

text \<open>
  Lines 585 to 608 of \<open>src/videoGenerator.ts\<close>, with the arithmetic of the doubles and
  without the text that is concatenated on the way: the total of the complexities, the
  available duration, and the loop that gives every section its duration and moves \<open>t\<close> on.
\<close>

fun total64 :: "double \<Rightarrow> double list \<Rightarrow> double option" where
  \<comment> \<open>a left fold of \<open>+\<close>, as \<open>reduce((s, c) => s + c, s0)\<close> and as \<open>t += secDur\<close> repeated\<close>
  "total64 s [] = Some s"
| "total64 s (c # cs) = (case dadd s c of None \<Rightarrow> None | Some s' \<Rightarrow> total64 s' cs)"

definition totalComplexity64 :: "double list \<Rightarrow> double option" where
  \<comment> \<open>\<open>sections.reduce((s, sec) => s + sec.complexity, 0)\<close>\<close>
  "totalComplexity64 cs = total64 (Double 0 0) cs"

definition initialDelay64 :: double where
  "initialDelay64 = Double 6 0"

definition secDur64 :: "double \<Rightarrow> double \<Rightarrow> double \<Rightarrow> double option" where
  \<comment> \<open>\<open>secDur = (sec.complexity / totalComplexity) * availableDuration\<close>\<close>
  "secDur64 totalComplexity availableDuration c =
     (case ddiv c totalComplexity of None \<Rightarrow> None | Some r \<Rightarrow> dmul r availableDuration)"

fun durationLoop64 ::
  "double \<Rightarrow> double \<Rightarrow> double \<Rightarrow> double list \<Rightarrow> (double list \<times> double) option" where
  "durationLoop64 totalComplexity availableDuration t [] = Some ([], t)"
| "durationLoop64 totalComplexity availableDuration t (c # cs) =
     (case secDur64 totalComplexity availableDuration c of
        None \<Rightarrow> None
      | Some secDur \<Rightarrow>
          (case dadd t secDur of
             None \<Rightarrow> None
           | Some t' \<Rightarrow>
               (case durationLoop64 totalComplexity availableDuration t' cs of
                  None \<Rightarrow> None
                | Some (ds, tEnd) \<Rightarrow> Some (secDur # ds, tEnd))))"

definition allocate64 :: "double list \<Rightarrow> double \<Rightarrow> (double \<times> double list \<times> double) option" where
  \<comment> \<open>from the complexities of the sections and the duration of the audio: the available
      duration, the durations of the sections, and \<open>t\<close> after the last section\<close>
  "allocate64 cs duration =
     (case totalComplexity64 cs of
        None \<Rightarrow> None
      | Some totalComplexity \<Rightarrow>
          (case dsub duration initialDelay64 of
             None \<Rightarrow> None
           | Some availableDuration \<Rightarrow>
               (case durationLoop64 totalComplexity availableDuration initialDelay64 cs of
                  None \<Rightarrow> None
                | Some (ds, tEnd) \<Rightarrow> Some (availableDuration, ds, tEnd))))"

definition sevenEqual :: "double list" where
  \<comment> \<open>seven sections of complexity 1\<close>
  "sevenEqual = replicate 7 (Double 1 0)"

section \<open>Basic facts about splitting and the layout state\<close>

lemma split_nonempty: "split sep s \<noteq> []"
  by (induction s) auto

lemma splitParagraphs_nonempty: "splitParagraphs s \<noteq> []"
  by (induction s rule: splitParagraphs.induct) (auto split: option.splits)

lemma pushLine_simps [simp]:
  "wrappedLines (pushLine t st) = wrappedLines st @ [t]"
  "sections (pushLine t st) = sections st"
  "currentLine (pushLine t st) = currentLine st + 1"
  by (simp_all add: pushLine_def)

lemma packWord_sections: "sections (snd (packWord m w acc)) = sections (snd acc)"
  by (cases acc) (simp add: packWord_def Let_def)

lemma packWords_sections: "sections (snd (packWords m ws acc)) = sections (snd acc)"
  by (induction ws arbitrary: acc) (simp_all add: packWord_sections)

lemma flushLine_sections: "sections (flushLine acc) = sections (snd acc)"
  by (cases acc) (simp add: flushLine_def)

lemma processLine_sections: "sections (fst (processLine m l acc)) = sections (fst acc)"
  by (cases acc) (simp add: processLine_def flushLine_sections packWords_sections)

lemma processLines_sections: "sections (fst (processLines m ls acc)) = sections (fst acc)"
  by (induction ls arbitrary: acc) (simp_all add: processLine_sections)

lemma processParagraph_sections_length:
  "length (sections (processParagraph m n i p st)) = Suc (length (sections st))"
proof -
  obtain st2 c where r:
    "processLines m (split newline p) (if i > 0 then pushLine [] st else st, 0) = (st2, c)"
    by (cases "processLines m (split newline p) (if i > 0 then pushLine [] st else st, 0)")
  from processLines_sections [of m "split newline p" "(if i > 0 then pushLine [] st else st, 0)"] r
  have "sections st2 = sections st" by (simp split: if_splits)
  with r show ?thesis by (simp add: processParagraph_def Let_def)
qed

lemma forEachParagraph_sections_length:
  "length (sections (forEachParagraph m n i ps st)) = length (sections st) + length ps"
  by (induction ps arbitrary: i st) (simp_all add: processParagraph_sections_length)

section \<open>One section per paragraph\<close>

text \<open>
  Claim C9. For every script, the empty string included, the layout phase produces at
  least one section: the split on blank-line boundaries yields at least one paragraph,
  and exactly one section is pushed for each paragraph.
\<close>

theorem layout_one_section_per_paragraph:
  "length (sections (layoutScript measureText script)) = length (splitParagraphs script)
   \<and> 1 \<le> length (splitParagraphs script)
   \<and> 1 \<le> length (sections (layoutScript measureText script))"
proof -
  have "length (sections (layoutScript measureText script)) = length (splitParagraphs script)"
    by (simp add: layoutScript_def Let_def forEachParagraph_sections_length emptyLayout_def)
  moreover have "1 \<le> length (splitParagraphs script)"
    using splitParagraphs_nonempty [of script] by (cases "splitParagraphs script") simp_all
  ultimately show ?thesis by simp
qed

section \<open>The sections over the wrapped lines\<close>

lemma synced_pushLine: "synced st \<Longrightarrow> synced (pushLine t st)"
  by (simp add: synced_def)

lemma packWord_synced: "synced (snd acc) \<Longrightarrow> synced (snd (packWord m w acc))"
  by (cases acc) (simp add: packWord_def Let_def synced_pushLine)

lemma packWords_synced: "synced (snd acc) \<Longrightarrow> synced (snd (packWords m ws acc))"
  by (induction ws arbitrary: acc) (simp_all add: packWord_synced)

lemma packWord_currentLine: "currentLine (snd acc) \<le> currentLine (snd (packWord m w acc))"
  by (cases acc) (simp add: packWord_def Let_def)

lemma packWords_currentLine: "currentLine (snd acc) \<le> currentLine (snd (packWords m ws acc))"
proof (induction ws arbitrary: acc)
  case Nil
  show ?case by simp
next
  case (Cons w ws)
  have "currentLine (snd acc) \<le> currentLine (snd (packWord m w acc))"
    by (rule packWord_currentLine)
  also have "\<dots> \<le> currentLine (snd (packWords m ws (packWord m w acc)))"
    by (rule Cons.IH)
  finally show ?case by simp
qed

lemma processLine_synced: "synced (fst acc) \<Longrightarrow> synced (fst (processLine m l acc))"
proof (cases acc)
  case (Pair st c)
  assume "synced (fst acc)"
  with Pair have s: "synced st" by simp
  obtain buf st' where r: "packWords m (split space l) ([], st) = (buf, st')"
    by (cases "packWords m (split space l) ([], st)")
  from packWords_synced [of "([], st)" m "split space l"] s r have "synced st'" by simp
  with s r Pair show ?thesis
    by (simp add: processLine_def flushLine_def synced_pushLine)
qed

lemma processLine_currentLine:
  "currentLine (fst acc) + 1 \<le> currentLine (fst (processLine m l acc))"
proof (cases acc)
  case (Pair st c)
  obtain buf st' where r: "packWords m (split space l) ([], st) = (buf, st')"
    by (cases "packWords m (split space l) ([], st)")
  from packWords_currentLine [of "([], st)" m "split space l"] r
  have "currentLine st \<le> currentLine st'" by simp
  with r Pair show ?thesis
    by (simp add: processLine_def flushLine_def)
qed

lemma processLines_synced: "synced (fst acc) \<Longrightarrow> synced (fst (processLines m ls acc))"
  by (induction ls arbitrary: acc) (simp_all add: processLine_synced)

lemma processLines_currentLine:
  "currentLine (fst acc) + int (length ls) \<le> currentLine (fst (processLines m ls acc))"
proof (induction ls arbitrary: acc)
  case Nil
  show ?case by simp
next
  case (Cons l ls)
  have "currentLine (fst acc) + 1 \<le> currentLine (fst (processLine m l acc))"
    by (rule processLine_currentLine)
  moreover have "currentLine (fst (processLine m l acc)) + int (length ls)
      \<le> currentLine (fst (processLines m ls (processLine m l acc)))"
    by (rule Cons.IH)
  ultimately show ?case by simp
qed

lemma chained_snoc:
  "chained (secs @ [s]) \<longleftrightarrow>
     chained secs \<and> startLine s \<le> endLine s
     \<and> (secs \<noteq> [] \<longrightarrow> startLine s = endLine (last secs) + 2)"
  by (induction secs rule: chained.induct) auto

lemma processParagraph_effect:
  assumes "synced st"
  obtains st2 :: layout and c :: real where
    "sections (processParagraph m n i p st)
       = sections st @ [\<lparr>startLine = currentLine st, endLine = currentLine st2 - 1, complexity = c\<rparr>]"
    "currentLine st + 1 \<le> currentLine st2"
    "currentLine (processParagraph m n i p st)
       = currentLine st2 + (if int i < int n - 1 then 1 else 0)"
    "synced (processParagraph m n i p st)"
proof -
  let ?st1 = "if i > 0 then pushLine [] st else st"
  obtain st2 c where r: "processLines m (split newline p) (?st1, 0) = (st2, c)"
    by (cases "processLines m (split newline p) (?st1, 0)")
  have s1: "synced ?st1" using assms by (simp add: synced_pushLine)
  from processLines_synced [of "(?st1, 0)" m "split newline p"] s1 r
  have s2: "synced st2" by simp
  from processLines_sections [of m "split newline p" "(?st1, 0)"] r
  have sec: "sections st2 = sections st" by (simp split: if_splits)
  have "1 \<le> int (length (split newline p))"
    using split_nonempty [of newline p] by (cases "split newline p") simp_all
  moreover from processLines_currentLine [of "(?st1, 0)" "split newline p" m] r
  have "currentLine ?st1 + int (length (split newline p)) \<le> currentLine st2" by simp
  moreover have "currentLine st \<le> currentLine ?st1" by simp
  ultimately have grow: "currentLine st + 1 \<le> currentLine st2" by linarith
  show ?thesis
  proof (rule that)
    show "sections (processParagraph m n i p st)
       = sections st @ [\<lparr>startLine = currentLine st, endLine = currentLine st2 - 1, complexity = c\<rparr>]"
      using r sec by (simp add: processParagraph_def Let_def)
    show "currentLine st + 1 \<le> currentLine st2" by (rule grow)
    show "currentLine (processParagraph m n i p st)
       = currentLine st2 + (if int i < int n - 1 then 1 else 0)"
      using r by (simp add: processParagraph_def Let_def)
    show "synced (processParagraph m n i p st)"
      using r s2 by (simp add: processParagraph_def Let_def synced_def)
  qed
qed

lemma forEachParagraph_closed:
  assumes "ps \<noteq> []" and "i + length ps = n"
    and "(i = 0 \<and> sections st = [] \<and> currentLine st = 0 \<and> synced st)
         \<or> (0 < i \<and> betweenParagraphs st)"
  shows "closedLayout (forEachParagraph m n i ps st)"
  using assms
proof (induction ps arbitrary: i st)
  case Nil
  then show ?case by simp
next
  case (Cons p ps)
  let ?st' = "processParagraph m n i p st"
  have sy: "synced st" using Cons.prems(3) by (auto simp: betweenParagraphs_def)
  obtain st2 :: layout and c :: real where
    sec: "sections ?st' = sections st @
            [\<lparr>startLine = currentLine st, endLine = currentLine st2 - 1, complexity = c\<rparr>]"
    and grow: "currentLine st + 1 \<le> currentLine st2"
    and cur: "currentLine ?st' = currentLine st2 + (if int i < int n - 1 then 1 else 0)"
    and sy': "synced ?st'"
    by (rule processParagraph_effect [OF sy, of m n i p])
  have ne: "sections ?st' \<noteq> []" using sec by simp
  have hd0: "startLine (hd (sections ?st')) = 0"
    using sec Cons.prems(3) by (cases "sections st") (auto simp: betweenParagraphs_def)
  have ch: "chained (sections ?st')"
    using sec grow Cons.prems(3) by (auto simp: chained_snoc betweenParagraphs_def)
  have lst: "endLine (last (sections ?st')) = currentLine st2 - 1"
    using sec by simp
  show ?case
  proof (cases ps)
    case Nil
    with Cons.prems(2) have "\<not> int i < int n - 1" by simp
    with cur have "currentLine ?st' = currentLine st2" by simp
    with ne hd0 ch lst sy' Nil show ?thesis
      by (simp add: closedLayout_def synced_def)
  next
    case (Cons q qs)
    with Cons.prems(2) \<open>i + length (p # ps) = n\<close> have "int i < int n - 1" by simp
    with cur have "currentLine ?st' = currentLine st2 + 1" by simp
    with ne hd0 ch lst sy' have "betweenParagraphs ?st'"
      by (simp add: betweenParagraphs_def)
    moreover have "ps \<noteq> []" using Cons by simp
    moreover have "Suc i + length ps = n" using \<open>i + length (p # ps) = n\<close> by simp
    ultimately have "closedLayout (forEachParagraph m n (Suc i) ps ?st')"
      using Cons.IH [of "Suc i" ?st'] by simp
    then show ?thesis by simp
  qed
qed

lemma layoutScript_closed: "closedLayout (layoutScript m script)"
  unfolding layoutScript_def Let_def
  by (rule forEachParagraph_closed)
     (simp_all add: splitParagraphs_nonempty synced_def emptyLayout_def)

lemma layout_twoParagraphs:
  "layoutScript monoWidth twoParagraphs =
     \<lparr>wrappedLines = [[0x61], [], [], [0x62]],
       sections = [\<lparr>startLine = 0, endLine = 0, complexity = 1\<rparr>,
                   \<lparr>startLine = 2, endLine = 3, complexity = 1\<rparr>],
       currentLine = 4\<rparr>"
  by code_simp

lemma layout_empty:
  "layoutScript m [] =
     \<lparr>wrappedLines = [[]], sections = [\<lparr>startLine = 0, endLine = 0, complexity = 0\<rparr>],
       currentLine = 1\<rparr>"
  by (simp add: layoutScript_def processParagraph_def processLine_def trim_def pushLine_def
        emptyLayout_def)

text \<open>
  Claim C3, as the code has it. For every script the sections are in order and do not
  overlap, the first starts at line 0 and the last ends at the last wrapped line, and
  each section after the first starts two lines after the end of the one before: the
  blank line pushed after a paragraph that is not the last belongs to no section.
\<close>

theorem sections_chained_with_gaps:
  "sections (layoutScript measureText script) \<noteq> []
   \<and> startLine (hd (sections (layoutScript measureText script))) = 0
   \<and> chained (sections (layoutScript measureText script))
   \<and> endLine (last (sections (layoutScript measureText script)))
       = int (length (wrappedLines (layoutScript measureText script))) - 1"
  using layoutScript_closed [of measureText script] by (simp add: closedLayout_def)

text \<open>
  Claim C3 as stated fails: for the script \<open>"a\n\nb"\<close> the wrapped lines are
  \<open>["a", "", "", "b"]\<close> and the sections are lines 0..0 and 2..3, so line 1 is in no
  section.
\<close>

theorem sections_partition_counterexample:
  "\<not> sectionsPartition (sections (layoutScript monoWidth twoParagraphs))
        (length (wrappedLines (layoutScript monoWidth twoParagraphs)))"
  by (simp add: layout_twoParagraphs sectionsPartition_def sectionLines_def upto.simps)

section \<open>Word wrapping\<close>

lemma linesOk_pushLine: "linesOk m W st \<Longrightarrow> fitsOrWord m W t \<Longrightarrow> linesOk m W (pushLine t st)"
  by (simp add: linesOk_def)

lemma packWord_linesOk:
  assumes "linesOk m W (snd acc)" and "fitsOrWord m W (fst acc)" and "w \<in> W"
  shows "linesOk m W (snd (packWord m w acc)) \<and> fitsOrWord m W (fst (packWord m w acc))"
proof (cases acc)
  case (Pair buf st)
  with assms show ?thesis
    by (auto simp: packWord_def Let_def linesOk_pushLine fitsOrWord_def)
qed

lemma packWords_linesOk:
  assumes "linesOk m W (snd acc)" and "fitsOrWord m W (fst acc)" and "set ws \<subseteq> W"
  shows "linesOk m W (snd (packWords m ws acc)) \<and> fitsOrWord m W (fst (packWords m ws acc))"
  using assms
proof (induction ws arbitrary: acc)
  case Nil
  then show ?case by simp
next
  case (Cons w ws)
  from Cons.prems have "w \<in> W" and rest: "set ws \<subseteq> W" by simp_all
  with Cons.prems packWord_linesOk [of m W acc w]
  have "linesOk m W (snd (packWord m w acc)) \<and> fitsOrWord m W (fst (packWord m w acc))"
    by simp
  with rest Cons.IH [of "packWord m w acc"] show ?case by simp
qed

lemma processLine_linesOk:
  assumes "linesOk m W (fst acc)" and "m [] \<le> drawableWidth" and "set (split space l) \<subseteq> W"
  shows "linesOk m W (fst (processLine m l acc))"
proof (cases acc)
  case (Pair st c)
  have e: "fitsOrWord m W []" using assms(2) by (simp add: fitsOrWord_def)
  obtain buf st' where r: "packWords m (split space l) ([], st) = (buf, st')"
    by (cases "packWords m (split space l) ([], st)")
  from packWords_linesOk [of m W "([], st)" "split space l"] assms Pair e r
  have "linesOk m W st' \<and> fitsOrWord m W buf" by simp
  with Pair assms(1) e r show ?thesis
    by (simp add: processLine_def flushLine_def linesOk_pushLine)
qed

lemma processLines_linesOk:
  assumes "linesOk m W (fst acc)" and "m [] \<le> drawableWidth"
    and "\<forall>l\<in>set ls. set (split space l) \<subseteq> W"
  shows "linesOk m W (fst (processLines m ls acc))"
  using assms
proof (induction ls arbitrary: acc)
  case Nil
  then show ?case by simp
next
  case (Cons l ls)
  from Cons.prems processLine_linesOk [of m W acc l]
  have "linesOk m W (fst (processLine m l acc))" by simp
  with Cons.prems Cons.IH [of "processLine m l acc"] show ?case by simp
qed

lemma processParagraph_linesOk:
  assumes "linesOk m W st" and "m [] \<le> drawableWidth"
    and "\<forall>l\<in>set (split newline p). set (split space l) \<subseteq> W"
  shows "linesOk m W (processParagraph m n i p st)"
proof -
  let ?st1 = "if i > 0 then pushLine [] st else st"
  have e: "fitsOrWord m W []" using assms(2) by (simp add: fitsOrWord_def)
  obtain st2 c where r: "processLines m (split newline p) (?st1, 0) = (st2, c)"
    by (cases "processLines m (split newline p) (?st1, 0)")
  have "linesOk m W ?st1" using assms(1) e by (simp add: linesOk_pushLine)
  with processLines_linesOk [of m W "(?st1, 0)" "split newline p"] assms r
  have "linesOk m W st2" by simp
  then have "linesOk m W (st2\<lparr>sections := secs\<rparr>)" for secs
    by (simp add: linesOk_def)
  with r e show ?thesis
    by (simp add: processParagraph_def Let_def linesOk_pushLine)
qed

lemma forEachParagraph_linesOk:
  assumes "linesOk m W st" and "m [] \<le> drawableWidth"
    and "\<forall>p\<in>set ps. \<forall>l\<in>set (split newline p). set (split space l) \<subseteq> W"
  shows "linesOk m W (forEachParagraph m n i ps st)"
  using assms
proof (induction ps arbitrary: i st)
  case Nil
  then show ?case by simp
next
  case (Cons p ps)
  from Cons.prems processParagraph_linesOk [of m W st p n i]
  have "linesOk m W (processParagraph m n i p st)" by simp
  with Cons.prems Cons.IH [of "processParagraph m n i p st" "i + 1"] show ?case by simp
qed

lemma layoutScript_linesOk:
  assumes "m [] \<le> drawableWidth"
  shows "linesOk m (set (scriptWords script)) (layoutScript m script)"
  unfolding layoutScript_def Let_def
proof (rule forEachParagraph_linesOk)
  show "linesOk m (set (scriptWords script)) emptyLayout"
    by (simp add: linesOk_def emptyLayout_def)
  show "m [] \<le> drawableWidth" by (rule assms)
  show "\<forall>p\<in>set (splitParagraphs script). \<forall>l\<in>set (split newline p).
          set (split space l) \<subseteq> set (scriptWords script)"
    by (auto simp: scriptWords_def)
qed

text \<open>
  Claim C7. For every script, every wrapped line of the scroll path is at most
  \<open>drawableWidth\<close> wide, except for a single word of the script wider than
  \<open>drawableWidth\<close>, which is a line of its own. The metrics provider is a parameter;
  the empty string is taken to fit (a canvas measures it as 0).
\<close>

theorem wrapped_line_fits_or_single_word:
  assumes "measureText [] \<le> drawableWidth"
    and "l \<in> set (wrappedLines (layoutScript measureText script))"
  shows "measureText l \<le> drawableWidth
         \<or> (l \<in> set (scriptWords script) \<and> drawableWidth < measureText l)"
  using layoutScript_linesOk [of measureText script] assms
  by (auto simp: linesOk_def fitsOrWord_def list_all_iff)

lemma layout_longWord: "wrappedLines (layoutScript posterWidth longWord) = [[], longWord]"
  by code_simp

lemma scriptWords_longWord: "scriptWords longWord = [longWord]"
  by code_simp

theorem wrapped_line_fits_or_single_word_witness:
  "posterWidth [] \<le> drawableWidth
   \<and> longWord \<in> set (wrappedLines (layoutScript posterWidth longWord))
   \<and> (posterWidth longWord \<le> drawableWidth
        \<or> (longWord \<in> set (scriptWords longWord) \<and> drawableWidth < posterWidth longWord))"
proof -
  have a: "posterWidth [] \<le> drawableWidth"
    by (simp add: posterWidth_def drawableWidth_def width_def paddingX_def)
  have b: "longWord \<in> set (wrappedLines (layoutScript posterWidth longWord))"
    by (simp add: layout_longWord)
  from wrapped_line_fits_or_single_word [of posterWidth longWord longWord] a b
  show ?thesis by (simp only: simp_thms)
qed

section \<open>An oversized word met with an empty buffer\<close>

lemma packWords_append:
  "packWords m (xs @ ys) acc = packWords m ys (packWords m xs acc)"
  by (induction xs arbitrary: acc) simp_all

lemma packWords_first_line:
  "\<exists>line more.
     wrappedLines (flushLine (packWords m ws (buf, st))) = wrappedLines st @ line # more
     \<and> prefix buf line
     \<and> ((ws = [] \<or> drawableWidth < m (if buf \<noteq> [] then buf @ [space] @ hd ws else hd ws))
          \<longrightarrow> line = buf)"
proof (induction ws arbitrary: buf st)
  case Nil
  show ?case by (simp add: flushLine_def)
next
  case (Cons x xs)
  let ?test = "if buf \<noteq> [] then buf @ [space] @ x else x"
  show ?case
  proof (cases "m ?test \<le> drawableWidth")
    case True
    then have step: "packWord m x (buf, st) = (?test, st)"
      by (simp add: packWord_def Let_def)
    from Cons.IH [of ?test st] obtain line more where
      l: "wrappedLines (flushLine (packWords m xs (?test, st))) = wrappedLines st @ line # more"
      and p: "prefix ?test line"
      by blast
    have "prefix buf ?test" by simp
    then have "prefix buf line" using p by (rule prefix_order.trans)
    with l step True show ?thesis by auto
  next
    case False
    then have step: "packWord m x (buf, st) = (x, pushLine buf st)"
      by (simp add: packWord_def Let_def)
    from Cons.IH [of x "pushLine buf st"] obtain line more where
      "wrappedLines (flushLine (packWords m xs (x, pushLine buf st)))
         = wrappedLines (pushLine buf st) @ line # more"
      by blast
    with step show ?thesis by auto
  qed
qed

text \<open>
  Claim C10. In the word-packing loop, whenever a word is measured while the line buffer
  is empty and the word alone is wider than the drawable width, an empty wrapped line is
  emitted immediately before the line that holds the word. The word is alone on that
  line whenever appending text never makes the measured width smaller.
\<close>

theorem oversized_word_after_empty_buffer:
  assumes "fst (packWords measureText pre (buf0, st0)) = []"
    and "drawableWidth < measureText w"
  shows "\<exists>line more.
     wrappedLines (flushLine (packWords measureText (pre @ w # post) (buf0, st0)))
       = wrappedLines (snd (packWords measureText pre (buf0, st0))) @ [] # line # more
     \<and> prefix w line
     \<and> ((\<forall>s t. measureText s \<le> measureText (s @ t)) \<longrightarrow> line = w)"
proof -
  obtain st1 where pre: "packWords measureText pre (buf0, st0) = ([], st1)"
    using assms(1) by (cases "packWords measureText pre (buf0, st0)") simp
  have step: "packWord measureText w ([], st1) = (w, pushLine [] st1)"
    using assms(2) by (simp add: packWord_def)
  have run: "packWords measureText (pre @ w # post) (buf0, st0)
               = packWords measureText post (w, pushLine [] st1)"
    by (simp add: packWords_append pre step)
  from packWords_first_line [of measureText post w "pushLine [] st1"]
  obtain line more where
    l: "wrappedLines (flushLine (packWords measureText post (w, pushLine [] st1)))
          = wrappedLines (pushLine [] st1) @ line # more"
    and p: "prefix w line"
    and alone: "(post = [] \<or> drawableWidth
                   < measureText (if w \<noteq> [] then w @ [space] @ hd post else hd post))
                \<longrightarrow> line = w"
    by blast
  have "line = w" if mono: "\<forall>s t. measureText s \<le> measureText (s @ t)"
  proof -
    have "measureText w \<le> measureText (if w \<noteq> [] then w @ [space] @ hd post else hd post)"
    proof (cases "w = []")
      case True
      with mono have "measureText [] \<le> measureText ([] @ hd post)" by blast
      with True show ?thesis by simp
    next
      case False
      with mono show ?thesis by simp
    qed
    with assms(2) alone show ?thesis by simp
  qed
  with l p run pre show ?thesis by auto
qed

theorem oversized_word_after_empty_buffer_witness:
  "fst (packWords posterWidth [] ([], emptyLayout)) = []
   \<and> drawableWidth < posterWidth longWord
   \<and> (\<forall>s t. posterWidth s \<le> posterWidth (s @ t))
   \<and> (\<exists>line more.
        wrappedLines (flushLine (packWords posterWidth ([] @ longWord # []) ([], emptyLayout)))
          = wrappedLines (snd (packWords posterWidth [] ([], emptyLayout))) @ [] # line # more
        \<and> prefix longWord line
        \<and> ((\<forall>s t. posterWidth s \<le> posterWidth (s @ t)) \<longrightarrow> line = longWord))"
proof -
  have a: "fst (packWords posterWidth [] ([], emptyLayout)) = []" by simp
  have b: "drawableWidth < posterWidth longWord"
    by (simp add: posterWidth_def drawableWidth_def width_def paddingX_def longWord_def)
  have c: "\<forall>s t. posterWidth s \<le> posterWidth (s @ t)" by (simp add: posterWidth_def)
  note d = oversized_word_after_empty_buffer [of posterWidth "[]" "[]" emptyLayout longWord "[]", OF a b]
  from a b c d show ?thesis by (intro conjI)
qed

section \<open>The section durations\<close>

lemma foldl_complexity:
  "foldl (\<lambda>s sec. s + complexity sec) a secs = a + sum_list (map complexity secs)"
  by (induction secs arbitrary: a) simp_all

lemma totalComplexityOf_sum: "totalComplexityOf secs = sum_list (map complexity secs)"
  by (simp add: totalComplexityOf_def foldl_complexity)

lemma secDurOf_fin: "T \<noteq> 0 \<Longrightarrow> secDurOf T A s = Fin (complexity s / T * A)"
  by (simp add: secDurOf_def)

section \<open>A total complexity of zero\<close>

lemma lineComplexity_nonneg: "0 \<le> lineComplexity l"
  by (simp add: lineComplexity_def avgWordLength_def)

lemma processLine_score: "snd acc \<le> snd (processLine m l acc)"
  using lineComplexity_nonneg [of l] by (cases acc) (simp add: processLine_def)

lemma processLines_score: "snd acc \<le> snd (processLines m ls acc)"
proof (induction ls arbitrary: acc)
  case Nil
  show ?case by simp
next
  case (Cons l ls)
  have "snd acc \<le> snd (processLine m l acc)" by (rule processLine_score)
  also have "\<dots> \<le> snd (processLines m ls (processLine m l acc))" by (rule Cons.IH)
  finally show ?case by simp
qed

lemma processParagraph_nonneg:
  assumes "\<forall>s\<in>set (sections st). 0 \<le> complexity s"
  shows "\<forall>s\<in>set (sections (processParagraph m n i p st)). 0 \<le> complexity s"
proof -
  let ?st1 = "if i > 0 then pushLine [] st else st"
  obtain st2 c where r: "processLines m (split newline p) (?st1, 0) = (st2, c)"
    by (cases "processLines m (split newline p) (?st1, 0)")
  from processLines_sections [of m "split newline p" "(?st1, 0)"] r
  have sec: "sections st2 = sections st" by (simp split: if_splits)
  from processLines_score [of "(?st1, 0)" m "split newline p"] r
  have "0 \<le> c" by simp
  with r sec assms show ?thesis by (auto simp: processParagraph_def Let_def)
qed

lemma forEachParagraph_nonneg:
  "\<forall>s\<in>set (sections st). 0 \<le> complexity s \<Longrightarrow>
   \<forall>s\<in>set (sections (forEachParagraph m n i ps st)). 0 \<le> complexity s"
proof (induction ps arbitrary: i st)
  case Nil
  then show ?case by simp
next
  case (Cons p ps)
  from Cons.prems have "\<forall>s\<in>set (sections (processParagraph m n i p st)). 0 \<le> complexity s"
    by (rule processParagraph_nonneg)
  then show ?case using Cons.IH [of "processParagraph m n i p st" "i + 1"] by simp
qed

lemma layoutScript_nonneg: "\<forall>s\<in>set (sections (layoutScript m script)). 0 \<le> complexity s"
  unfolding layoutScript_def Let_def
  by (rule forEachParagraph_nonneg) (simp add: emptyLayout_def)

lemma sum_complexity_nonneg:
  "\<forall>s\<in>set secs. 0 \<le> complexity s \<Longrightarrow> 0 \<le> sum_list (map complexity secs)"
  by (induction secs) simp_all

lemma sum_zero_all_zero:
  "\<forall>s\<in>set secs. 0 \<le> complexity s \<Longrightarrow> sum_list (map complexity secs) = 0 \<Longrightarrow>
   \<forall>s\<in>set secs. complexity s = 0"
proof (induction secs)
  case Nil
  show ?case by simp
next
  case (Cons x xs)
  from Cons.prems(1) have x: "0 \<le> complexity x" and xs: "\<forall>s\<in>set xs. 0 \<le> complexity s"
    by simp_all
  from xs have "0 \<le> sum_list (map complexity xs)" by (rule sum_complexity_nonneg)
  with x Cons.prems(2) have "complexity x = 0" and "sum_list (map complexity xs) = 0"
    by simp_all
  with xs Cons.IH show ?case by simp
qed

lemma zero_total_all_zero:
  assumes "\<forall>s\<in>set secs. 0 \<le> complexity s" and "totalComplexityOf secs = 0"
  shows "\<forall>s\<in>set secs. complexity s = 0"
  using assms by (simp add: totalComplexityOf_sum sum_zero_all_zero)

lemma secDurOf_zero: "complexity s = 0 \<Longrightarrow> secDurOf 0 A s = NaN"
  by (simp add: secDurOf_def)

text \<open>
  Claim C4, as the code has it. If the total complexity of the sections of a script is
  zero, every section duration is \<open>0 / 0 * availableDuration\<close>, that is \<open>NaN\<close>: the
  loop has no equal-share rule.
\<close>

theorem zero_total_complexity_gives_NaN:
  assumes "totalComplexityOf (sections (layoutScript measureText script)) = 0"
  shows "sectionDurations (sections (layoutScript measureText script)) duration
           = replicate (length (sections (layoutScript measureText script))) NaN"
proof -
  let ?secs = "sections (layoutScript measureText script)"
  have z: "\<forall>s\<in>set ?secs. complexity s = 0"
    using layoutScript_nonneg assms by (rule zero_total_all_zero)
  have "map (secDurOf 0 A) secs = replicate (length secs) NaN"
    if "\<forall>s\<in>set secs. complexity s = 0" for secs :: "scrollSection list" and A
    using that by (induction secs) (simp_all add: secDurOf_zero)
  with z assms show ?thesis by (simp add: sectionDurations_def)
qed

theorem zero_total_complexity_gives_NaN_witness:
  "totalComplexityOf (sections (layoutScript monoWidth [])) = 0
   \<and> sectionDurations (sections (layoutScript monoWidth [])) 16
       = replicate (length (sections (layoutScript monoWidth []))) NaN"
proof -
  have a: "totalComplexityOf (sections (layoutScript monoWidth [])) = 0"
    by (simp add: layout_empty totalComplexityOf_def)
  from zero_total_complexity_gives_NaN [OF a] a show ?thesis by simp
qed

text \<open>
  Claim C4 as stated fails: the empty script has one section of complexity 0, and with an
  audio duration of 16 its duration is \<open>NaN\<close>, not the available 10 seconds.
\<close>

theorem equal_share_counterexample:
  "sectionDurations (sections (layoutScript monoWidth [])) 16 \<noteq> [Fin (16 - initialDelay)]"
  by (simp add: layout_empty sectionDurations_def totalComplexityOf_def secDurOf_def)

section \<open>The scroll position over time\<close>
















subsection \<open>The text and its tree\<close>

lemma sectionsText_Cons:
  "sectionsText T A (acc, t) (sec # secs)
     = sectionsText T A (acc @ sectionChunk T A t sec, jsadd t (secDurOf T A sec)) secs"
  by (simp add: Let_def sectionChunk_def)

lemma render_sectionsExpr_Cons:
  "render (sectionsExpr T A tail t (sec # secs))
     = sectionChunk T A t sec
         @ render (sectionsExpr T A tail (jsadd t (secDurOf T A sec)) secs) @ [Close]"
  by (simp add: Let_def sectionChunk_def)

lemma sectionsText_acc:
  "sectionsText T A (acc, t) secs
     = (acc @ fst (sectionsText T A ([], t) secs), snd (sectionsText T A ([], t) secs))"
proof (induction secs arbitrary: acc t)
  case Nil
  show ?case by simp
next
  case (Cons sec secs)
  let ?chunk = "sectionChunk T A t sec"
  let ?t = "jsadd t (secDurOf T A sec)"
  let ?rest = "sectionsText T A ([], ?t) secs"
  have a: "sectionsText T A (acc, t) (sec # secs) = ((acc @ ?chunk) @ fst ?rest, snd ?rest)"
    by (simp only: sectionsText_Cons) (rule Cons.IH)
  have b: "sectionsText T A ([], t) (sec # secs) = (([] @ ?chunk) @ fst ?rest, snd ?rest)"
    by (simp only: sectionsText_Cons) (rule Cons.IH)
  show ?case by (simp only: a b fst_conv snd_conv append_assoc append_Nil)
qed

lemma render_sectionsExpr:
  "render (sectionsExpr T A tail t secs)
     = fst (sectionsText T A ([], t) secs) @ [Number tail] @ replicate (length secs) Close"
proof (induction secs arbitrary: t)
  case Nil
  show ?case by simp
next
  case (Cons sec secs)
  let ?chunk = "sectionChunk T A t sec"
  let ?t = "jsadd t (secDurOf T A sec)"
  let ?rest = "fst (sectionsText T A ([], ?t) secs)"
  have body: "fst (sectionsText T A ([], t) (sec # secs)) = ?chunk @ ?rest"
    using sectionsText_acc [of T A "[] @ ?chunk" ?t secs]
    by (simp only: sectionsText_Cons fst_conv append_Nil)
  have "render (sectionsExpr T A tail t (sec # secs))
          = ?chunk @ render (sectionsExpr T A tail ?t secs) @ [Close]"
    by (rule render_sectionsExpr_Cons)
  also have "\<dots> = ?chunk @ (?rest @ [Number tail] @ replicate (length secs) Close) @ [Close]"
    by (simp only: Cons.IH)
  also have "\<dots> = (?chunk @ ?rest) @ [Number tail] @ replicate (length (sec # secs)) Close"
    by (simp add: replicate_append_same)
  finally show ?case by (simp only: body)
qed

lemma text_lacks_one_close:
  "generateScrollExpression lay duration @ [Close] = render (scrollTree lay duration)"
proof -
  let ?T = "totalComplexityOf (sections lay)"
  let ?A = "duration - initialDelay"
  let ?expr0 = "[IfOpen, LtCond (Fin initialDelay), Comma, Number paddingY, Comma]"
  let ?tail = "real (length (wrappedLines lay)) * lineHeight + paddingY * 2 + height - height"
  let ?body = "fst (sectionsText ?T ?A ([], Fin initialDelay) (sections lay))"
  have "sectionsText ?T ?A (?expr0, Fin initialDelay) (sections lay)
          = (?expr0 @ ?body, snd (sectionsText ?T ?A ([], Fin initialDelay) (sections lay)))"
    by (rule sectionsText_acc)
  then have "generateScrollExpression lay duration
          = ?expr0 @ ?body @ [Number ?tail] @ replicate (length (sections lay)) Close"
    by (simp add: generateScrollExpression_def Let_def)
  moreover have "render (scrollTree lay duration)
          = ?expr0 @ (?body @ [Number ?tail] @ replicate (length (sections lay)) Close) @ [Close]"
    by (simp add: scrollTree_def Let_def render_sectionsExpr)
  ultimately show ?thesis by simp
qed

lemma unclosed_append: "unclosed (xs @ ys) = unclosed xs + unclosed ys"
  by (simp add: unclosed_def)

lemma unclosed_render: "unclosed (render e) = 0"
  by (induction e) (simp_all add: unclosed_append, simp_all add: unclosed_def)

lemma unclosed_text: "unclosed (generateScrollExpression lay duration) = 1"
proof -
  have "unclosed (generateScrollExpression lay duration @ [Close]) = 0"
    by (simp only: text_lacks_one_close unclosed_render)
  then show ?thesis by (simp add: unclosed_append) (simp add: unclosed_def)
qed

lemma text_is_no_expression: "render e \<noteq> generateScrollExpression lay duration"
proof
  assume "render e = generateScrollExpression lay duration"
  then have "unclosed (render e) = unclosed (generateScrollExpression lay duration)" by simp
  then show False by (simp add: unclosed_render unclosed_text)
qed

lemma render_unique: "render e1 @ r1 = render e2 @ r2 \<Longrightarrow> e1 = e2 \<and> r1 = r2"
proof (induction e1 arbitrary: e2 r1 r2)
  case (Const c)
  then show ?case by (cases e2) simp_all
next
  case (Linear a b c d)
  then show ?case by (cases e2) simp_all
next
  case (IfLt a x y)
  show ?case
  proof (cases e2)
    case (Const c)
    with IfLt.prems show ?thesis by simp
  next
    case (Linear a' b' c' d')
    with IfLt.prems show ?thesis by simp
  next
    case (IfLt a' x' y')
    with IfLt.prems have a: "a = a'"
      and rest: "render x @ (Comma # render y @ Close # r1) = render x' @ (Comma # render y' @ Close # r2)"
      by simp_all
    from IfLt.IH(1) [OF rest] have x: "x = x'"
      and rest2: "render y @ (Close # r1) = render y' @ (Close # r2)" by simp_all
    from IfLt.IH(2) [OF rest2] have "y = y'" and "r1 = r2" by simp_all
    with a x \<open>e2 = IfLt a' x' y'\<close> show ?thesis by simp
  qed
qed

subsection \<open>Monotone, with a step at the end of every window\<close>

lemma running_time_fin:
  "T \<noteq> 0 \<Longrightarrow>
   snd (sectionsText T A (acc, Fin t0) secs) = Fin (t0 + sum_list (map complexity secs) / T * A)"
  by (induction secs arbitrary: acc t0) (simp_all add: Let_def secDurOf_fin field_simps)














section \<open>The pipeline\<close>

text \<open>
  Claim C5, as the code has it. There is no check of the available duration: when the
  probed audio duration minus the initial delay is zero or negative, the scroll
  expression is still built from it and handed to the first encoder run, and the
  invocation succeeds whenever the external calls resolve.
\<close>

theorem short_audio_reaches_encoder:
  assumes "pngStream env" and "saveScrollImage env"
    and "getAudioDuration env = Some duration" and "duration - initialDelay \<le> 0"
  shows "encoderCalls (generateScrollingScriptVideo env script) \<noteq> []
       \<and> hd (encoderCalls (generateScrollingScriptVideo env script))
           = ScrollEncode (generateScrollExpression (layoutScript (measureWidth env) script) duration)
               duration
       \<and> (scrollEncode env
             (generateScrollExpression (layoutScript (measureWidth env) script) duration) duration
           \<and> muxAudio env \<and> saveScrollVideo env
           \<longrightarrow> result (generateScrollingScriptVideo env script) = Inr FinalVideo)"
  using assms(1-3) by (simp add: generateScrollingScriptVideo_def Let_def)

theorem short_audio_reaches_encoder_witness:
  "pngStream (allResolve 5) \<and> saveScrollImage (allResolve 5)
   \<and> getAudioDuration (allResolve 5) = Some 5 \<and> 5 - initialDelay \<le> 0
   \<and> scrollEncode (allResolve 5)
        (generateScrollExpression (layoutScript (measureWidth (allResolve 5)) twoParagraphs) 5) 5
   \<and> muxAudio (allResolve 5) \<and> saveScrollVideo (allResolve 5)
   \<and> encoderCalls (generateScrollingScriptVideo (allResolve 5) twoParagraphs) \<noteq> []
   \<and> hd (encoderCalls (generateScrollingScriptVideo (allResolve 5) twoParagraphs))
       = ScrollEncode
           (generateScrollExpression (layoutScript (measureWidth (allResolve 5)) twoParagraphs) 5) 5
   \<and> result (generateScrollingScriptVideo (allResolve 5) twoParagraphs) = Inr FinalVideo"
proof -
  have a: "pngStream (allResolve 5)" and b: "saveScrollImage (allResolve 5)"
    and c: "getAudioDuration (allResolve 5) = Some 5"
    and e: "scrollEncode (allResolve 5) x y" and f: "muxAudio (allResolve 5)"
    and g: "saveScrollVideo (allResolve 5)" for x y
    by (simp_all add: allResolve_def)
  have d: "(5::real) - initialDelay \<le> 0" by (simp add: initialDelay_def)
  from short_audio_reaches_encoder [OF a b c d, of twoParagraphs] a b c d e f g
  show ?thesis by simp
qed

text \<open>
  Claim C5 as stated fails: with an audio duration of 5 seconds and an initial delay of 6
  the invocation returns the video after both encoder runs; no error is raised.
\<close>

theorem audio_too_short_counterexample:
  "5 - initialDelay \<le> 0
   \<and> result (generateScrollingScriptVideo (allResolve 5) twoParagraphs) = Inr FinalVideo
   \<and> length (encoderCalls (generateScrollingScriptVideo (allResolve 5) twoParagraphs)) = 2"
  by (simp add: generateScrollingScriptVideo_def Let_def allResolve_def initialDelay_def)

text \<open>
  Claim C6, as the code has it. For the empty script the layout returns one empty
  wrapped line and one section (lines 0 to 0, complexity 0); no error is raised for it,
  the first encoder run is invoked, and the invocation succeeds whenever the external
  calls resolve.
\<close>

theorem empty_script_one_section:
  assumes "pngStream env" and "saveScrollImage env" and "getAudioDuration env = Some duration"
  shows "wrappedLines (layoutScript (measureWidth env) []) = [[]]
       \<and> sections (layoutScript (measureWidth env) [])
           = [\<lparr>startLine = 0, endLine = 0, complexity = 0\<rparr>]
       \<and> encoderCalls (generateScrollingScriptVideo env []) \<noteq> []
       \<and> (scrollEncode env
             (generateScrollExpression (layoutScript (measureWidth env) []) duration) duration
           \<and> muxAudio env \<and> saveScrollVideo env
           \<longrightarrow> result (generateScrollingScriptVideo env []) = Inr FinalVideo)"
  using assms by (simp add: generateScrollingScriptVideo_def Let_def layout_empty)

theorem empty_script_one_section_witness:
  "pngStream (allResolve 16) \<and> saveScrollImage (allResolve 16)
   \<and> getAudioDuration (allResolve 16) = Some 16
   \<and> scrollEncode (allResolve 16)
        (generateScrollExpression (layoutScript (measureWidth (allResolve 16)) []) 16) 16
   \<and> muxAudio (allResolve 16) \<and> saveScrollVideo (allResolve 16)
   \<and> wrappedLines (layoutScript (measureWidth (allResolve 16)) []) = [[]]
   \<and> sections (layoutScript (measureWidth (allResolve 16)) [])
       = [\<lparr>startLine = 0, endLine = 0, complexity = 0\<rparr>]
   \<and> encoderCalls (generateScrollingScriptVideo (allResolve 16) []) \<noteq> []
   \<and> result (generateScrollingScriptVideo (allResolve 16) []) = Inr FinalVideo"
proof -
  have a: "pngStream (allResolve 16)" and b: "saveScrollImage (allResolve 16)"
    and c: "getAudioDuration (allResolve 16) = Some 16"
    and e: "scrollEncode (allResolve 16) x y" and f: "muxAudio (allResolve 16)"
    and g: "saveScrollVideo (allResolve 16)" for x y
    by (simp_all add: allResolve_def)
  from empty_script_one_section [OF a b c] a b c e f g
  show ?thesis by simp
qed

text \<open>
  Claim C6 as stated fails: the empty script has one section, not zero, and the
  invocation returns the video after both encoder runs.
\<close>

theorem empty_input_counterexample:
  "length (sections (layoutScript monoWidth [])) = 1
   \<and> result (generateScrollingScriptVideo (allResolve 16) []) = Inr FinalVideo
   \<and> length (encoderCalls (generateScrollingScriptVideo (allResolve 16) [])) = 2"
  by (simp add: generateScrollingScriptVideo_def Let_def allResolve_def layout_empty)

text \<open>
  Claim C8 at a failing input. When the first encoder run rejects, the \<open>catch\<close> block
  logs and rethrows: the image and the audio file written to \<open>/tmp\<close> stay there. The
  removal of the four files is reached on the success path only.
\<close>

theorem temp_files_left_on_encoder_failure:
  "result (generateScrollingScriptVideo (encodeRejects 16) twoParagraphs) = Inl EncodeError
   \<and> tmpFiles (generateScrollingScriptVideo (encodeRejects 16) twoParagraphs)
       = {TmpImage, TmpAudio}"
  by (auto simp: generateScrollingScriptVideo_def Let_def allResolve_def encodeRejects_def)

lemma temp_files_removed_on_success:
  "result (generateScrollingScriptVideo env script) = Inr v \<Longrightarrow>
   tmpFiles (generateScrollingScriptVideo env script) = {}"
  by (auto simp: generateScrollingScriptVideo_def Let_def split: if_splits option.splits)

section \<open>Rounding to binary64\<close>

text \<open>
  The rounded value is within half a unit in the last place of the exact one: a relative
  error of at most \<open>2^-53\<close>, and an absolute one of at most \<open>2^-1075\<close> where the result is
  subnormal.
\<close>

lemma nearestEven_close:
  assumes "0 < k"
  shows "\<bar>nearestEven m k * 2 ^ nat k - m\<bar> \<le> 2 ^ nat (k - 1)"
proof -
  define P :: int where "P = 2 ^ nat k"
  define H :: int where "H = 2 ^ nat (k - 1)"
  define q where "q = m div P"
  define r where "r = m mod P"
  have "nat k = Suc (nat (k - 1))" using assms by simp
  then have PH: "P = 2 * H" by (simp add: P_def H_def)
  have Ppos: "0 < P" by (simp add: P_def)
  have m: "m = q * P + r" by (simp add: q_def r_def)
  have r: "0 \<le> r" "r < P" using Ppos by (simp_all add: r_def)
  have ne: "nearestEven m k = (if r < H then q else if H < r then q + 1 else if even q then q else q + 1)"
    by (simp add: nearestEven_def Let_def P_def H_def q_def r_def)
  have "\<bar>nearestEven m k * P - m\<bar> \<le> H"
  proof (cases "r < H")
    case True
    then have "nearestEven m k * P - m = - r" using ne m by simp
    with True r show ?thesis by simp
  next
    case False
    show ?thesis
    proof (cases "H < r")
      case True
      then have "nearestEven m k * P - m = P - r" using ne m False by (simp add: algebra_simps)
      with True r PH show ?thesis by simp
    next
      case F2: False
      with False have rH: "r = H" by simp
      have "nearestEven m k = q \<or> nearestEven m k = q + 1" using ne by simp
      then show ?thesis
      proof
        assume "nearestEven m k = q"
        then have "nearestEven m k * P - m = - r" using m by simp
        with rH r show ?thesis by simp
      next
        assume "nearestEven m k = q + 1"
        then have "nearestEven m k * P - m = P - r" using m by (simp add: algebra_simps)
        with rH PH r show ?thesis by simp
      qed
    qed
  qed
  then show ?thesis by (simp add: P_def H_def)
qed

lemma nearestEven_nonneg:
  assumes "0 < k" and "0 \<le> m"
  shows "0 \<le> nearestEven m k"
proof -
  have "0 \<le> m div 2 ^ nat k" using assms(2) by (simp add: pos_imp_zdiv_nonneg_iff)
  then show ?thesis by (simp add: nearestEven_def Let_def)
qed

lemma powi_shift: "0 \<le> k \<Longrightarrow> (2::real) powi (e + k) = 2 powi e * 2 ^ nat k"
  by (simp add: power_int_add) (simp add: power_int_def)

lemma roundTo_Some: "roundTo m e = Some R \<Longrightarrow> R = roundFinite m e"
  by (simp add: roundTo_def Let_def split: if_splits)

lemma roundFinite_cases:
  obtains (exact) "roundFinite m e = Double m e" and "- 1074 \<le> e"
  | (normal) k where "0 < k" and "k = bitlen \<bar>m\<bar> - 53"
      and "roundFinite m e = Double (nearestEven m k) (e + k)" and "- 1074 \<le> e + k"
  | (subnormal) k where "0 < k" and "k = - 1074 - e"
      and "roundFinite m e = Double (nearestEven m k) (e + k)"
proof -
  define k where "k = max (bitlen \<bar>m\<bar> - 53) (- 1074 - e)"
  show ?thesis
  proof (cases "k \<le> 0")
    case True
    then have "roundFinite m e = Double m e"
      unfolding roundFinite_def Let_def k_def [symmetric] by simp
    moreover have "- 1074 \<le> e" using True by (simp add: k_def)
    ultimately show ?thesis by (rule exact)
  next
    case False
    then have kpos: "0 < k" by simp
    then have R: "roundFinite m e = Double (nearestEven m k) (e + k)"
      unfolding roundFinite_def Let_def k_def [symmetric] by simp
    show ?thesis
    proof (cases "- 1074 - e \<le> bitlen \<bar>m\<bar> - 53")
      case True
      then have "k = bitlen \<bar>m\<bar> - 53" by (simp add: k_def)
      moreover have "- 1074 \<le> e + k" using True \<open>k = bitlen \<bar>m\<bar> - 53\<close> by simp
      ultimately show ?thesis using kpos R by (intro normal [of k]) simp_all
    next
      case False
      then have "k = - 1074 - e" by (simp add: k_def)
      then show ?thesis using kpos R by (intro subnormal [of k]) simp_all
    qed
  qed
qed

lemma nearestEven_value:
  assumes "0 < k"
  shows "\<bar>valueOf (Double (nearestEven m k) (e + k)) - real_of_int m * 2 powi e\<bar>
           \<le> 2 ^ nat (k - 1) * 2 powi e"
proof -
  have "valueOf (Double (nearestEven m k) (e + k)) - real_of_int m * 2 powi e
          = real_of_int (nearestEven m k * 2 ^ nat k - m) * 2 powi e"
    using assms by (simp add: valueOf_def powi_shift algebra_simps)
  then have "\<bar>valueOf (Double (nearestEven m k) (e + k)) - real_of_int m * 2 powi e\<bar>
          = real_of_int \<bar>nearestEven m k * 2 ^ nat k - m\<bar> * 2 powi e"
    by (simp add: abs_mult)
  also have "\<dots> \<le> real_of_int (2 ^ nat (k - 1)) * 2 powi e"
    using nearestEven_close [OF assms, of m]
    by (intro mult_right_mono) (simp_all only: of_int_le_iff, simp)
  finally show ?thesis by simp
qed

lemma normal_half_ulp:
  assumes "0 < k" and "k = bitlen \<bar>m\<bar> - 53"
  shows "(2::real) ^ nat (k - 1) \<le> \<bar>real_of_int m\<bar> / 2 ^ 53"
proof -
  have pos: "0 < \<bar>m\<bar>" using assms by (cases "m = 0") simp_all
  from bitlen_bounds [OF pos] have "2 ^ nat (bitlen \<bar>m\<bar> - 1) \<le> \<bar>m\<bar>" by simp
  moreover have "nat (bitlen \<bar>m\<bar> - 1) = nat (k - 1) + 53" using assms by simp
  ultimately have "(2::int) ^ (nat (k - 1) + 53) \<le> \<bar>m\<bar>" by simp
  then have "real_of_int (2 ^ (nat (k - 1) + 53)) \<le> real_of_int \<bar>m\<bar>" by (simp only: of_int_le_iff)
  then have "(2::real) ^ nat (k - 1) * 2 ^ 53 \<le> \<bar>real_of_int m\<bar>" by (simp add: power_add)
  then show ?thesis by (simp add: pos_le_divide_eq)
qed

lemma roundFinite_error_rel:
  assumes "- 1074 \<le> e"
  shows "\<bar>valueOf (roundFinite m e) - real_of_int m * 2 powi e\<bar>
           \<le> \<bar>real_of_int m * 2 powi e\<bar> / 2 ^ 53"
proof (cases rule: roundFinite_cases [of m e])
  case exact
  then show ?thesis by (simp add: valueOf_def)
next
  case (normal k)
  have "\<bar>valueOf (roundFinite m e) - real_of_int m * 2 powi e\<bar> \<le> 2 ^ nat (k - 1) * 2 powi e"
    using nearestEven_value [OF normal(1), of m e] normal(3) by simp
  also have "\<dots> \<le> (\<bar>real_of_int m\<bar> / 2 ^ 53) * 2 powi e"
    using normal_half_ulp [OF normal(1,2)] by (intro mult_right_mono) simp_all
  also have "\<dots> = \<bar>real_of_int m * 2 powi e\<bar> / 2 ^ 53" by (simp add: abs_mult)
  finally show ?thesis .
next
  case (subnormal k)
  with assms show ?thesis by simp
qed

lemma roundFinite_error:
  "\<bar>valueOf (roundFinite m e) - real_of_int m * 2 powi e\<bar>
     \<le> \<bar>real_of_int m * 2 powi e\<bar> / 2 ^ 53 + 2 powi (- 1075)"
proof (cases rule: roundFinite_cases [of m e])
  case exact
  then show ?thesis by (simp add: valueOf_def)
next
  case (normal k)
  have "\<bar>valueOf (roundFinite m e) - real_of_int m * 2 powi e\<bar> \<le> 2 ^ nat (k - 1) * 2 powi e"
    using nearestEven_value [OF normal(1), of m e] normal(3) by simp
  also have "\<dots> \<le> (\<bar>real_of_int m\<bar> / 2 ^ 53) * 2 powi e"
    using normal_half_ulp [OF normal(1,2)] by (intro mult_right_mono) simp_all
  also have "\<dots> = \<bar>real_of_int m * 2 powi e\<bar> / 2 ^ 53" by (simp add: abs_mult)
  finally show ?thesis by (simp add: add_increasing2)
next
  case (subnormal k)
  have "\<bar>valueOf (roundFinite m e) - real_of_int m * 2 powi e\<bar> \<le> 2 ^ nat (k - 1) * 2 powi e"
    using nearestEven_value [OF subnormal(1), of m e] subnormal(3) by simp
  also have "(2::real) ^ nat (k - 1) * 2 powi e = 2 powi (e + (k - 1))"
    using subnormal(1) by (simp add: powi_shift)
  also have "e + (k - 1) = - 1075" using subnormal(2) by simp
  finally show ?thesis by (simp add: add_increasing)
qed

lemma roundFinite_exponent: "- 1074 \<le> exponent (roundFinite m e)"
proof (cases rule: roundFinite_cases [of m e])
  case exact then show ?thesis by simp
next
  case (normal k) then show ?thesis by simp
next
  case (subnormal k) then show ?thesis by simp
qed

lemma roundFinite_nonneg:
  assumes "0 \<le> m"
  shows "0 \<le> mantissa (roundFinite m e)"
proof (cases rule: roundFinite_cases [of m e])
  case exact with assms show ?thesis by simp
next
  case (normal k) with assms show ?thesis by (simp add: nearestEven_nonneg)
next
  case (subnormal k) with assms show ?thesis by (simp add: nearestEven_nonneg)
qed

lemma eta_le_one: "(2::real) powi (- 1075) \<le> 1"
  using power_int_increasing [of "- 1075" 0 "2::real"] by simp

lemma not_overflows:
  assumes "\<bar>valueOf x\<bar> \<le> 2 ^ 200"
  shows "\<not> overflows x"
proof
  assume o: "overflows x"
  then have nz: "0 < \<bar>mantissa x\<bar>" and big: "1024 < bitlen \<bar>mantissa x\<bar> + exponent x"
    by (simp_all add: overflows_def)
  define b where "b = bitlen \<bar>mantissa x\<bar>"
  from bitlen_bounds [OF nz] have "2 ^ nat (b - 1) \<le> \<bar>mantissa x\<bar>" by (simp add: b_def)
  then have "real_of_int (2 ^ nat (b - 1)) \<le> real_of_int \<bar>mantissa x\<bar>"
    by (simp only: of_int_le_iff)
  then have a: "(2::real) ^ nat (b - 1) \<le> \<bar>real_of_int (mantissa x)\<bar>" by simp
  have "b \<noteq> 0" using nz by (simp add: b_def bitlen_eq_zero_iff)
  moreover have "0 \<le> b" by (simp add: b_def bitlen_nonneg)
  ultimately have b1: "0 \<le> b - 1" by simp
  have "(2::real) powi (exponent x + (b - 1)) = 2 powi exponent x * 2 ^ nat (b - 1)"
    using b1 by (rule powi_shift)
  also have "\<dots> \<le> 2 powi exponent x * \<bar>real_of_int (mantissa x)\<bar>"
    using a by (intro mult_left_mono) simp_all
  also have "\<dots> = \<bar>valueOf x\<bar>" by (simp add: valueOf_def abs_mult)
  also have "\<dots> \<le> 2 powi 200" using assms by simp
  finally have "(2::real) powi (exponent x + (b - 1)) \<le> 2 powi 200" .
  then have "exponent x + (b - 1) \<le> 200"
    by (rule power_int_le_imp_le_exp [rotated]) simp_all
  with big show False by (simp add: b_def)
qed

lemma roundTo_finite:
  assumes "\<bar>real_of_int m * 2 powi e\<bar> \<le> 2 ^ 198"
  shows "roundTo m e = Some (roundFinite m e)"
proof -
  define x where "x = real_of_int m * 2 powi e"
  define r where "r = valueOf (roundFinite m e)"
  have x: "\<bar>x\<bar> \<le> 2 ^ 198" using assms by (simp add: x_def)
  have "\<bar>r - x\<bar> \<le> \<bar>x\<bar> / 2 ^ 53 + 2 powi (- 1075)"
    unfolding r_def x_def by (rule roundFinite_error)
  moreover have "\<bar>x\<bar> / 2 ^ 53 \<le> \<bar>x\<bar>" by (simp add: field_simps)
  ultimately have "\<bar>r - x\<bar> \<le> \<bar>x\<bar> + 1" using eta_le_one by linarith
  then have "\<bar>r\<bar> \<le> 2 * \<bar>x\<bar> + 1" by linarith
  also have "\<dots> \<le> 2 * 2 ^ 198 + 1" using x by simp
  also have "\<dots> \<le> (2::real) ^ 200" by simp
  finally have "\<not> overflows (roundFinite m e)" unfolding r_def by (rule not_overflows)
  then show ?thesis by (simp add: roundTo_def Let_def)
qed

subsection \<open>Sum, product and quotient\<close>

lemma powi_unshift: "e \<le> ex \<Longrightarrow> (2::real) ^ nat (ex - e) * 2 powi e = 2 powi ex"
  using powi_shift [of "ex - e" e] by simp

lemma dadd_value:
  fixes x y :: double
  defines "e \<equiv> min (exponent x) (exponent y)"
  shows "real_of_int (mantissa x * 2 ^ nat (exponent x - e) + mantissa y * 2 ^ nat (exponent y - e))
           * 2 powi e = valueOf x + valueOf y"
proof -
  have "e \<le> exponent x" and "e \<le> exponent y" by (simp_all add: e_def)
  then have a: "(2::real) ^ nat (exponent x - e) * 2 powi e = 2 powi exponent x"
    and b: "(2::real) ^ nat (exponent y - e) * 2 powi e = 2 powi exponent y"
    by (simp_all only: powi_unshift)
  have "real_of_int (mantissa x * 2 ^ nat (exponent x - e) + mantissa y * 2 ^ nat (exponent y - e))
           * 2 powi e
        = real_of_int (mantissa x) * (2 ^ nat (exponent x - e) * 2 powi e)
          + real_of_int (mantissa y) * (2 ^ nat (exponent y - e) * 2 powi e)"
    by (simp add: algebra_simps)
  then show ?thesis by (simp only: a b valueOf_def)
qed

lemma dadd_sound:
  assumes "- 1074 \<le> exponent x" and "- 1074 \<le> exponent y"
    and "\<bar>valueOf x + valueOf y\<bar> \<le> 2 ^ 198"
  obtains R where "dadd x y = Some R"
    and "\<bar>valueOf R - (valueOf x + valueOf y)\<bar> \<le> \<bar>valueOf x + valueOf y\<bar> / 2 ^ 53"
    and "- 1074 \<le> exponent R"
    and "0 \<le> mantissa x \<Longrightarrow> 0 \<le> mantissa y \<Longrightarrow> 0 \<le> mantissa R"
proof -
  define e where "e = min (exponent x) (exponent y)"
  define M where "M = mantissa x * 2 ^ nat (exponent x - e) + mantissa y * 2 ^ nat (exponent y - e)"
  have v: "real_of_int M * 2 powi e = valueOf x + valueOf y"
    unfolding M_def e_def by (rule dadd_value)
  have e: "- 1074 \<le> e" using assms(1,2) by (simp add: e_def)
  have d: "dadd x y = roundTo M e" by (simp add: dadd_def Let_def M_def e_def)
  have s: "roundTo M e = Some (roundFinite M e)"
    by (rule roundTo_finite) (simp only: v assms(3))
  show ?thesis
  proof (rule that [of "roundFinite M e"])
    show "dadd x y = Some (roundFinite M e)" by (simp only: d s)
    show "\<bar>valueOf (roundFinite M e) - (valueOf x + valueOf y)\<bar> \<le> \<bar>valueOf x + valueOf y\<bar> / 2 ^ 53"
      using roundFinite_error_rel [OF e, of M] by (simp only: v)
    show "- 1074 \<le> exponent (roundFinite M e)" by (rule roundFinite_exponent)
    show "0 \<le> mantissa (roundFinite M e)" if "0 \<le> mantissa x" and "0 \<le> mantissa y"
      by (rule roundFinite_nonneg) (simp add: M_def that)
  qed
qed

lemma dmul_sound:
  assumes "\<bar>valueOf x * valueOf y\<bar> \<le> 2 ^ 198"
  obtains R where "dmul x y = Some R"
    and "\<bar>valueOf R - valueOf x * valueOf y\<bar> \<le> \<bar>valueOf x * valueOf y\<bar> / 2 ^ 53 + 2 powi (- 1075)"
    and "- 1074 \<le> exponent R"
    and "0 \<le> mantissa x \<Longrightarrow> 0 \<le> mantissa y \<Longrightarrow> 0 \<le> mantissa R"
proof -
  define e where "e = exponent x + exponent y"
  define M where "M = mantissa x * mantissa y"
  have v: "real_of_int M * 2 powi e = valueOf x * valueOf y"
    by (simp add: M_def e_def valueOf_def power_int_add)
  have d: "dmul x y = roundTo M e" by (simp add: dmul_def M_def e_def)
  have s: "roundTo M e = Some (roundFinite M e)"
    by (rule roundTo_finite) (simp only: v assms)
  show ?thesis
  proof (rule that [of "roundFinite M e"])
    show "dmul x y = Some (roundFinite M e)" by (simp only: d s)
    show "\<bar>valueOf (roundFinite M e) - valueOf x * valueOf y\<bar>
            \<le> \<bar>valueOf x * valueOf y\<bar> / 2 ^ 53 + 2 powi (- 1075)"
      using roundFinite_error [of M e] by (simp only: v)
    show "- 1074 \<le> exponent (roundFinite M e)" by (rule roundFinite_exponent)
    show "0 \<le> mantissa (roundFinite M e)" if "0 \<le> mantissa x" and "0 \<le> mantissa y"
      by (rule roundFinite_nonneg) (simp add: M_def that)
  qed
qed

lemma quotient_value:
  assumes "mantissa y \<noteq> 0"
  shows "valueOf x / valueOf y
           = real_of_int (mantissa x * 2 ^ s) / real_of_int (mantissa y)
               * 2 powi (exponent x - exponent y - int s)"
proof -
  have "(2::real) ^ s * 2 powi (exponent x - exponent y - int s) = 2 powi (exponent x - exponent y)"
    using powi_unshift [of "exponent x - exponent y - int s" "exponent x - exponent y"] by simp
  moreover have "(2::real) powi (exponent x - exponent y) = 2 powi exponent x / 2 powi exponent y"
    by (simp add: power_int_diff)
  ultimately have "(2::real) ^ s * 2 powi (exponent x - exponent y - int s)
      = 2 powi exponent x / 2 powi exponent y" by simp
  then have "real_of_int (mantissa x * 2 ^ s) / real_of_int (mantissa y)
               * 2 powi (exponent x - exponent y - int s)
           = real_of_int (mantissa x) / real_of_int (mantissa y)
               * (2 powi exponent x / 2 powi exponent y)"
    by (simp add: algebra_simps)
  then show ?thesis by (simp add: valueOf_def)
qed

lemma shifted_numerator_large:
  assumes "0 < mx" and "0 < my"
    and "s = nat (max 0 (bitlen (abs my) - bitlen (abs mx) + 56))"
  shows "2 ^ 55 * my \<le> mx * 2 ^ s"
proof -
  define bx where "bx = bitlen mx"
  define bY where "bY = bitlen my"
  from bitlen_bounds [OF assms(1)] have lo: "2 ^ nat (bx - 1) \<le> mx" by (simp add: bx_def)
  from bitlen_bounds [OF assms(2)] have hi: "my < 2 ^ nat bY" by (simp add: bY_def)
  have "bx \<noteq> 0" using assms(1) by (simp add: bx_def bitlen_eq_zero_iff)
  moreover have "0 \<le> bx" by (simp add: bx_def bitlen_nonneg)
  ultimately have bx1: "1 \<le> bx" by simp
  have by0: "0 \<le> bY" by (simp add: bY_def bitlen_nonneg)
  have s: "bY - bx + 56 \<le> int s" using assms by (simp add: bx_def bY_def)
  have "int (nat bY + 55) \<le> int (nat (bx - 1) + s)" using s bx1 by0 by simp
  then have le: "nat bY + 55 \<le> nat (bx - 1) + s" by (simp only: of_nat_le_iff)
  have "2 ^ 55 * my \<le> 2 ^ 55 * (2::int) ^ nat bY" using hi by simp
  also have "\<dots> = 2 ^ (nat bY + 55)" by (simp add: power_add)
  also have "\<dots> \<le> 2 ^ (nat (bx - 1) + s)" using le by (rule power_increasing) simp
  also have "\<dots> = 2 ^ nat (bx - 1) * 2 ^ s" by (simp add: power_add)
  also have "\<dots> \<le> mx * 2 ^ s" using lo by (intro mult_right_mono) simp_all
  finally show ?thesis .
qed

lemma ddiv_sound:
  assumes "0 \<le> mantissa x" and "0 < mantissa y" and "valueOf x / valueOf y \<le> 2 ^ 197"
  obtains R where "ddiv x y = Some R"
    and "\<bar>valueOf R - valueOf x / valueOf y\<bar> \<le> (valueOf x / valueOf y) / 2 ^ 52 + 2 powi (- 1075)"
    and "- 1074 \<le> exponent R"
    and "0 \<le> mantissa R"
proof -
  define mx where "mx = mantissa x"
  define my where "my = mantissa y"
  define s where "s = nat (max 0 (bitlen (abs my) - bitlen (abs mx) + 56))"
  define n where "n = mx * 2 ^ s"
  define q where "q = n div my"
  define r where "r = n mod my"
  define e0 where "e0 = exponent x - exponent y - int s"
  define X where "X = valueOf x / valueOf y"
  have mx: "0 \<le> mx" and my: "0 < my" using assms(1,2) by (simp_all add: mx_def my_def)
  have n0: "0 \<le> n" using mx by (simp add: n_def)
  have q0: "0 \<le> q" using n0 my by (simp add: q_def pos_imp_zdiv_nonneg_iff)
  have r: "0 \<le> r" "r < my" using my by (simp_all add: r_def)
  have nqr: "n = q * my + r" by (simp add: q_def r_def)
  have X: "X = real_of_int n / real_of_int my * 2 powi e0"
    unfolding X_def n_def e0_def mx_def my_def
    by (rule quotient_value) (use assms(2) in simp)
  have X0: "0 \<le> X" using n0 my by (simp add: X)
  have Xle: "X \<le> 2 ^ 197" using assms(3) by (simp add: X_def)
  have eta0: "0 \<le> (2::real) powi (- 1075)" by simp
  have dd: "ddiv x y = (if r = 0 then roundTo q e0 else roundTo (2 * q + 1) (e0 - 1))"
    using my by (simp add: ddiv_def Let_def mx_def my_def s_def n_def q_def r_def e0_def)
  show ?thesis
  proof (cases "r = 0")
    case True
    then have "real_of_int n / real_of_int my = real_of_int q" using nqr my by simp
    then have v: "real_of_int q * 2 powi e0 = X" by (simp add: X)
    have "\<bar>real_of_int q * 2 powi e0\<bar> \<le> 2 ^ 198" using X0 Xle by (simp add: v)
    then have s: "roundTo q e0 = Some (roundFinite q e0)" by (rule roundTo_finite)
    have "\<bar>valueOf (roundFinite q e0) - X\<bar> \<le> \<bar>X\<bar> / 2 ^ 53 + 2 powi (- 1075)"
      using roundFinite_error [of q e0] by (simp only: v)
    moreover have "\<bar>X\<bar> / 2 ^ 53 \<le> X / 2 ^ 52" using X0 by (simp add: field_simps)
    ultimately have err: "\<bar>valueOf (roundFinite q e0) - X\<bar> \<le> X / 2 ^ 52 + 2 powi (- 1075)"
      by linarith
    show ?thesis
    proof (rule that [of "roundFinite q e0"])
      show "ddiv x y = Some (roundFinite q e0)" using True by (simp add: dd s)
      show "\<bar>valueOf (roundFinite q e0) - valueOf x / valueOf y\<bar>
              \<le> valueOf x / valueOf y / 2 ^ 52 + 2 powi (- 1075)"
        using err by (simp only: X_def)
      show "- 1074 \<le> exponent (roundFinite q e0)" by (rule roundFinite_exponent)
      show "0 \<le> mantissa (roundFinite q e0)" using q0 by (rule roundFinite_nonneg)
    qed
  next
    case False
    define N where "N = 2 * q + 1"
    define e1 where "e1 = e0 - 1"
    define P where "P = (2::real) powi e1"
    define Y where "Y = real_of_int N * P"
    have P0: "0 < P" by (simp add: P_def)
    have P2: "(2::real) powi e0 = 2 * P"
      using powi_shift [of 1 e1] by (simp add: P_def e1_def)
    have rpos: "0 < r" using False r by simp
    have mxpos: "0 < mx"
    proof (rule ccontr)
      assume "\<not> 0 < mx"
      with mx have "n = 0" by (simp add: n_def)
      then have "r = 0" by (simp add: r_def)
      with False show False by simp
    qed
    have frac: "real_of_int n / real_of_int my = real_of_int q + real_of_int r / real_of_int my"
      using my by (simp add: nqr field_simps)
    define f where "f = real_of_int r / real_of_int my"
    have f: "0 < f" "f < 1" using rpos r(2) my by (simp_all add: f_def)
    have XY: "X - Y = (2 * f - 1) * P"
      by (simp add: X Y_def N_def frac P2 f_def algebra_simps)
    have "\<bar>2 * f - 1\<bar> \<le> 1" using f by (simp add: abs_le_iff)
    then have "\<bar>(2 * f - 1) * P\<bar> \<le> 1 * P" using P0 by (simp add: abs_mult)
    then have dXY: "\<bar>X - Y\<bar> \<le> P" by (simp add: XY)
    have "2 ^ 55 * my \<le> n"
      unfolding n_def by (rule shifted_numerator_large [OF mxpos my]) (simp add: s_def)
    then have "real_of_int (2 ^ 55 * my) \<le> real_of_int n" by (simp only: of_int_le_iff)
    then have "2 ^ 55 * real_of_int my \<le> real_of_int n" by simp
    then have "2 ^ 55 \<le> real_of_int n / real_of_int my" using my by (simp add: pos_le_divide_eq)
    then have "2 ^ 55 * (2 * P) \<le> real_of_int n / real_of_int my * (2 * P)"
      using P0 by (intro mult_right_mono) simp_all
    then have PX: "2 ^ 56 * P \<le> X" by (simp add: X P2)
    have Yabs: "\<bar>Y\<bar> \<le> X + P" using dXY X0 by linarith
    have "1 * P \<le> 2 ^ 56 * P" using P0 by (intro mult_right_mono) simp_all
    then have PleX: "P \<le> X" using PX by simp
    have "\<bar>Y\<bar> \<le> 2 * X" using Yabs PleX by linarith
    then have "\<bar>real_of_int N * 2 powi e1\<bar> \<le> 2 ^ 198" using Xle by (simp add: Y_def P_def)
    then have s: "roundTo N e1 = Some (roundFinite N e1)" by (rule roundTo_finite)
    have "\<bar>valueOf (roundFinite N e1) - Y\<bar> \<le> \<bar>Y\<bar> / 2 ^ 53 + 2 powi (- 1075)"
      using roundFinite_error [of N e1] by (simp only: Y_def P_def)
    moreover have "\<bar>Y\<bar> / 2 ^ 53 \<le> (X + P) / 2 ^ 53" using Yabs by (simp add: divide_right_mono)
    ultimately have "\<bar>valueOf (roundFinite N e1) - X\<bar>
        \<le> (X + P) / 2 ^ 53 + 2 powi (- 1075) + P"
      using dXY by linarith
    moreover have "(X + P) / 2 ^ 53 + P \<le> X / 2 ^ 52"
    proof -
      have "P \<le> X / 2 ^ 56" using PX by (simp add: field_simps)
      then have "(X + P) / 2 ^ 53 + P \<le> (X + X / 2 ^ 56) / 2 ^ 53 + X / 2 ^ 56"
        by (intro add_mono divide_right_mono) simp_all
      also have "\<dots> \<le> X / 2 ^ 52" using X0 by (simp add: field_simps)
      finally show ?thesis .
    qed
    ultimately have err: "\<bar>valueOf (roundFinite N e1) - X\<bar> \<le> X / 2 ^ 52 + 2 powi (- 1075)"
      by linarith
    show ?thesis
    proof (rule that [of "roundFinite N e1"])
      show "ddiv x y = Some (roundFinite N e1)"
        using False s by (simp add: dd N_def e1_def)
      show "\<bar>valueOf (roundFinite N e1) - valueOf x / valueOf y\<bar>
              \<le> valueOf x / valueOf y / 2 ^ 52 + 2 powi (- 1075)"
        using err by (simp only: X_def)
      show "- 1074 \<le> exponent (roundFinite N e1)" by (rule roundFinite_exponent)
      show "0 \<le> mantissa (roundFinite N e1)"
        by (rule roundFinite_nonneg) (use q0 in \<open>simp add: N_def\<close>)
    qed
  qed
qed

section \<open>The durations in binary64\<close>

lemma valueOf_nonneg: "0 \<le> mantissa x \<Longrightarrow> 0 \<le> valueOf x"
  by (simp add: valueOf_def)

lemma mantissa_pos:
  assumes "0 < valueOf x"
  shows "0 < mantissa x"
proof -
  have "0 < (2::real) powi exponent x" by simp
  with assms have "0 < real_of_int (mantissa x)"
    unfolding valueOf_def by (rule zero_less_mult_pos2)
  then show ?thesis by simp
qed

lemma total64_sound:
  assumes "- 1074 \<le> exponent s" and "0 \<le> mantissa s"
    and "\<forall>c\<in>set cs. - 1074 \<le> exponent c \<and> 0 \<le> mantissa c"
    and "0 \<le> p" and "\<bar>valueOf s - p\<bar> \<le> real j / 2 ^ 52 * p"
    and "real (j + length cs) / 2 ^ 52 \<le> 1"
    and "p + sum_list (map valueOf cs) \<le> 2 ^ 196"
  shows "\<exists>R. total64 s cs = Some R
           \<and> \<bar>valueOf R - (p + sum_list (map valueOf cs))\<bar>
               \<le> real (j + length cs) / 2 ^ 52 * (p + sum_list (map valueOf cs))
           \<and> - 1074 \<le> exponent R \<and> 0 \<le> mantissa R"
  using assms
proof (induction cs arbitrary: s p j)
  case Nil
  then show ?case by simp
next
  case (Cons c cs)
  define vs where "vs = valueOf s"
  define vc where "vc = valueOf c"
  define rest where "rest = sum_list (map valueOf cs)"
  define dj where "dj = real j / 2 ^ 52"
  have c: "- 1074 \<le> exponent c" "0 \<le> mantissa c"
    and cs: "\<forall>c\<in>set cs. - 1074 \<le> exponent c \<and> 0 \<le> mantissa c"
    using Cons.prems(3) by simp_all
  have vc0: "0 \<le> vc" using c(2) by (simp add: vc_def valueOf_nonneg)
  have vs0: "0 \<le> vs" using Cons.prems(2) by (simp add: vs_def valueOf_nonneg)
  have rest0: "0 \<le> rest"
    unfolding rest_def using cs by (intro sum_list_nonneg) (auto simp: valueOf_nonneg)
  have dj0: "0 \<le> dj" by (simp add: dj_def)
  have "dj \<le> real (j + length (c # cs)) / 2 ^ 52"
    by (simp add: dj_def divide_right_mono)
  with Cons.prems(6) have dj1: "dj \<le> 1" by linarith
  have near: "\<bar>vs - p\<bar> \<le> dj * p" using Cons.prems(5) by (simp add: vs_def dj_def)
  have "dj * p \<le> 1 * p" using dj1 Cons.prems(4) by (rule mult_right_mono)
  with near have vs2: "vs \<le> 2 * p" by linarith
  have tot: "p + (vc + rest) \<le> 2 ^ 196" using Cons.prems(7) by (simp add: vc_def rest_def)
  have "vs + vc \<le> 2 * p + 2 * vc + 2 * rest" using vs2 vc0 rest0 by linarith
  also have "\<dots> = 2 * (p + (vc + rest))" by simp
  also have "\<dots> \<le> 2 * 2 ^ 196" using tot by simp
  finally have "\<bar>valueOf s + valueOf c\<bar> \<le> 2 ^ 198" using vs0 vc0 by (simp add: vs_def vc_def)
  from dadd_sound [OF Cons.prems(1) c(1) this]
  obtain s' where s': "dadd s c = Some s'"
    and e1: "\<bar>valueOf s' - (valueOf s + valueOf c)\<bar> \<le> \<bar>valueOf s + valueOf c\<bar> / 2 ^ 53"
    and x1: "- 1074 \<le> exponent s'"
    and n1: "0 \<le> mantissa s \<Longrightarrow> 0 \<le> mantissa c \<Longrightarrow> 0 \<le> mantissa s'"
    by blast
  define vs' where "vs' = valueOf s'"
  have e1': "\<bar>vs' - (vs + vc)\<bar> \<le> (vs + vc) / 2 ^ 53"
    using e1 vs0 vc0 by (simp add: vs'_def vs_def vc_def)
  have "(vs + vc) / 2 ^ 53 \<le> (2 * (p + vc)) / 2 ^ 53"
    using vs2 vc0 by (intro divide_right_mono) simp_all
  also have "\<dots> = (p + vc) / 2 ^ 52" by simp
  finally have a: "(vs + vc) / 2 ^ 53 \<le> (p + vc) / 2 ^ 52" .
  have b: "dj * p \<le> dj * (p + vc)" using dj0 vc0 by (intro mult_left_mono) simp_all
  have "\<bar>vs' - (p + vc)\<bar> \<le> \<bar>vs' - (vs + vc)\<bar> + \<bar>vs - p\<bar>" by linarith
  also have "\<dots> \<le> (p + vc) / 2 ^ 52 + dj * (p + vc)" using e1' a near b by linarith
  also have "\<dots> = real (Suc j) / 2 ^ 52 * (p + vc)" by (simp add: dj_def field_simps)
  finally have near': "\<bar>valueOf s' - (p + valueOf c)\<bar> \<le> real (Suc j) / 2 ^ 52 * (p + valueOf c)"
    by (simp add: vs'_def vc_def)
  have p': "0 \<le> p + valueOf c" using Cons.prems(4) vc0 by (simp add: vc_def)
  have cnt: "real (Suc j + length cs) / 2 ^ 52 \<le> 1" using Cons.prems(6) by simp
  have tot': "p + valueOf c + sum_list (map valueOf cs) \<le> 2 ^ 196"
    using Cons.prems(7) by (simp add: add.assoc)
  from Cons.IH [OF x1 n1 [OF Cons.prems(2) c(2)] cs p' near' cnt tot']
  obtain R where "total64 s' cs = Some R"
    and "\<bar>valueOf R - (p + valueOf c + sum_list (map valueOf cs))\<bar>
           \<le> real (Suc j + length cs) / 2 ^ 52 * (p + valueOf c + sum_list (map valueOf cs))"
    and "- 1074 \<le> exponent R" and "0 \<le> mantissa R"
    by blast
  then show ?case using s' by (simp add: add.assoc)
qed

lemma durationLoop64_split:
  "durationLoop64 T A t cs = Some (ds, tEnd)
     \<longleftrightarrow> list_all2 (\<lambda>c d. secDur64 T A c = Some d) cs ds \<and> total64 t ds = Some tEnd"
proof (induction cs arbitrary: t ds)
  case Nil
  show ?case by (cases ds) auto
next
  case (Cons c cs)
  show ?case
  proof (cases "secDur64 T A c")
    case None
    then show ?thesis by (cases ds) simp_all
  next
    case (Some d)
    show ?thesis
    proof (cases "dadd t d")
      case None
      with Some show ?thesis by (cases ds) auto
    next
      case t': (Some t')
      show ?thesis
      proof (cases ds)
        case Nil
        with Some t' show ?thesis by (auto split: option.splits)
      next
        case (Cons d' ds')
        with Some t' Cons.IH [of t' ds'] show ?thesis
          by (auto split: option.splits)
      qed
    qed
  qed
qed

lemma eta_small: "(2::real) powi (- 1075) \<le> 1 / 2 ^ 100"
proof -
  have "(2::real) powi (- 1075) \<le> 2 powi (- 100)" by (rule power_int_increasing) simp_all
  also have "\<dots> = 1 / 2 ^ 100" by (simp add: power_int_minus inverse_eq_divide)
  finally show ?thesis .
qed

lemma secDur64_sound:
  assumes "0 \<le> mantissa c" and "0 < mantissa T" and "valueOf c / valueOf T \<le> 2"
    and "0 \<le> mantissa A" and "valueOf A \<le> 2 ^ 18"
  shows "\<exists>d. secDur64 T A c = Some d
           \<and> \<bar>valueOf d - valueOf A / valueOf T * valueOf c\<bar>
               \<le> valueOf A / valueOf T / 2 ^ 51 * valueOf c
                  + (2 * valueOf A + 1) * 2 powi (- 1075)
           \<and> - 1074 \<le> exponent d \<and> 0 \<le> mantissa d"
proof -
  define X where "X = valueOf c / valueOf T"
  define a where "a = valueOf A"
  define H where "H = (2::real) powi (- 1075)"
  have H: "0 \<le> H" "H \<le> 1" using eta_le_one by (simp_all add: H_def)
  have a0: "0 \<le> a" using assms(4) by (simp add: a_def valueOf_nonneg)
  have a18: "a \<le> 2 ^ 18" using assms(5) by (simp add: a_def)
  have vT: "0 < valueOf T" using assms(2) by (simp add: valueOf_def)
  have X0: "0 \<le> X" using assms(1) vT by (simp add: X_def valueOf_nonneg)
  have X2: "X \<le> 2" using assms(3) by (simp add: X_def)
  have "valueOf c / valueOf T \<le> 2 ^ 197" using assms(3) by simp
  from ddiv_sound [OF assms(1,2) this]
  obtain r where r: "ddiv c T = Some r"
    and er: "\<bar>valueOf r - X\<bar> \<le> X / 2 ^ 52 + H"
    and r0: "0 \<le> mantissa r"
    unfolding X_def H_def by blast
  define v where "v = valueOf r"
  have v0: "0 \<le> v" using r0 by (simp add: v_def valueOf_nonneg)
  have "X / 2 ^ 52 \<le> X" using X0 by (simp add: field_simps)
  with er have v2: "v \<le> 2 * X + H" unfolding v_def by linarith
  then have v5: "v \<le> 5" using X2 H by linarith
  have "v * a \<le> 5 * 2 ^ 18" using v5 a18 v0 a0 by (intro mult_mono) simp_all
  also have "\<dots> \<le> (2::real) ^ 198" by simp
  finally have "\<bar>valueOf r * valueOf A\<bar> \<le> 2 ^ 198" using v0 a0 by (simp add: v_def a_def)
  from dmul_sound [OF this]
  obtain d where d: "dmul r A = Some d"
    and ed: "\<bar>valueOf d - v * a\<bar> \<le> \<bar>v * a\<bar> / 2 ^ 53 + H"
    and xd: "- 1074 \<le> exponent d"
    and nd: "0 \<le> mantissa r \<Longrightarrow> 0 \<le> mantissa A \<Longrightarrow> 0 \<le> mantissa d"
    unfolding v_def a_def H_def by blast
  define XA where "XA = X * a"
  define HA where "HA = H * a"
  have XA0: "0 \<le> XA" using X0 a0 by (simp add: XA_def)
  have HA0: "0 \<le> HA" using H a0 by (simp add: HA_def)
  have va: "v * a \<le> 2 * XA + HA"
  proof -
    have "v * a \<le> (2 * X + H) * a" using v2 a0 by (rule mult_right_mono)
    then show ?thesis by (simp add: XA_def HA_def algebra_simps)
  qed
  have va0: "0 \<le> v * a" using v0 a0 by simp
  have t1: "\<bar>v * a\<bar> / 2 ^ 53 \<le> XA / 2 ^ 52 + HA"
  proof -
    have "\<bar>v * a\<bar> / 2 ^ 53 \<le> (2 * XA + HA) / 2 ^ 53"
      using va va0 by (intro divide_right_mono) simp_all
    also have "\<dots> = XA / 2 ^ 52 + HA / 2 ^ 53" by (simp add: add_divide_distrib)
    also have "\<dots> \<le> XA / 2 ^ 52 + HA" using HA0 by (simp add: field_simps)
    finally show ?thesis .
  qed
  have t2: "\<bar>v * a - XA\<bar> \<le> XA / 2 ^ 52 + HA"
  proof -
    have "\<bar>v * a - XA\<bar> = \<bar>v - X\<bar> * a" using a0 by (simp add: XA_def abs_mult flip: left_diff_distrib)
    also have "\<dots> \<le> (X / 2 ^ 52 + H) * a" using er a0 unfolding v_def by (rule mult_right_mono)
    also have "\<dots> = XA / 2 ^ 52 + HA" by (simp add: XA_def HA_def algebra_simps)
    finally show ?thesis .
  qed
  have "\<bar>valueOf d - XA\<bar> \<le> \<bar>valueOf d - v * a\<bar> + \<bar>v * a - XA\<bar>" by linarith
  also have "\<dots> \<le> (XA / 2 ^ 52 + HA + H) + (XA / 2 ^ 52 + HA)" using ed t1 t2 by linarith
  also have "\<dots> = XA / 2 ^ 51 + (2 * HA + H)" by simp
  finally have err: "\<bar>valueOf d - XA\<bar> \<le> XA / 2 ^ 51 + (2 * HA + H)" .
  have XA': "XA = valueOf A / valueOf T * valueOf c" by (simp add: XA_def X_def a_def)
  have "XA / 2 ^ 51 = valueOf A / valueOf T / 2 ^ 51 * valueOf c" by (simp add: XA')
  moreover have "2 * HA + H = (2 * valueOf A + 1) * 2 powi (- 1075)"
    by (simp add: HA_def H_def a_def algebra_simps)
  ultimately have "\<bar>valueOf d - valueOf A / valueOf T * valueOf c\<bar>
               \<le> valueOf A / valueOf T / 2 ^ 51 * valueOf c
                  + (2 * valueOf A + 1) * 2 powi (- 1075)"
    using err by (simp only: XA')
  moreover have "secDur64 T A c = Some d" by (simp add: secDur64_def r d)
  ultimately show ?thesis using xd nd [OF r0 assms(4)] by blast
qed

lemma list_all2_exists:
  "\<forall>c\<in>set cs. \<exists>d. P c d \<Longrightarrow> \<exists>ds. list_all2 P cs ds"
proof (induction cs)
  case Nil
  show ?case by simp
next
  case (Cons c cs)
  then obtain d ds where "P c d" and "list_all2 P cs ds" by auto
  then have "list_all2 P (c # cs) (d # ds)" by simp
  then show ?case by blast
qed

lemma sum_list_error:
  assumes "list_all2 (\<lambda>c d. \<bar>valueOf d - g * valueOf c\<bar> \<le> a * valueOf c + b) cs ds"
  shows "\<bar>sum_list (map valueOf ds) - g * sum_list (map valueOf cs)\<bar>
           \<le> a * sum_list (map valueOf cs) + b * real (length cs)"
  using assms
proof (induction rule: list_all2_induct)
  case Nil
  show ?case by simp
next
  case (Cons c cs d ds)
  define x where "x = valueOf d - g * valueOf c"
  define y where "y = sum_list (map valueOf ds) - g * sum_list (map valueOf cs)"
  have "\<bar>x\<bar> \<le> a * valueOf c + b" using Cons.hyps(1) by (simp add: x_def)
  moreover have "\<bar>y\<bar> \<le> a * sum_list (map valueOf cs) + b * real (length cs)"
    using Cons.IH by (simp add: y_def)
  moreover have "sum_list (map valueOf (d # ds)) - g * sum_list (map valueOf (c # cs)) = x + y"
    by (simp add: x_def y_def algebra_simps)
  moreover have "a * sum_list (map valueOf (c # cs)) + b * real (length (c # cs))
      = (a * valueOf c + b) + (a * sum_list (map valueOf cs) + b * real (length cs))"
    by (simp add: algebra_simps)
  ultimately show ?case by (simp only:)
qed

lemma sum_list_bounded:
  "\<forall>c\<in>set cs. valueOf c \<le> B \<Longrightarrow> sum_list (map valueOf cs) \<le> real (length cs) * B"
  by (induction cs) (simp_all add: algebra_simps)

lemma member_le_sum:
  "\<forall>c\<in>set cs. 0 \<le> valueOf c \<Longrightarrow> c \<in> set cs \<Longrightarrow> valueOf c \<le> sum_list (map valueOf cs)"
  by (rule member_le_sum_list) auto

lemma valueOf_zero [simp]: "valueOf (Double 0 e) = 0"
  by (simp add: valueOf_def)

lemma valueOf_int [simp]: "valueOf (Double m 0) = real_of_int m"
  by (simp add: valueOf_def)

lemma totalComplexity64_sound:
  assumes "\<forall>c\<in>set cs. - 1074 \<le> exponent c \<and> 0 \<le> mantissa c"
    and "length cs \<le> 1000" and "sum_list (map valueOf cs) \<le> 2 ^ 196"
  shows "\<exists>T. total64 (Double 0 0) cs = Some T
           \<and> \<bar>valueOf T - sum_list (map valueOf cs)\<bar>
               \<le> real (length cs) / 2 ^ 52 * sum_list (map valueOf cs)
           \<and> - 1074 \<le> exponent T \<and> 0 \<le> mantissa T"
proof -
  have "real (length cs) \<le> 1000" using assms(2) by simp
  then have n: "real (0 + length cs) / 2 ^ 52 \<le> 1" by simp
  have "\<exists>R. total64 (Double 0 0) cs = Some R
           \<and> \<bar>valueOf R - (0 + sum_list (map valueOf cs))\<bar>
               \<le> real (0 + length cs) / 2 ^ 52 * (0 + sum_list (map valueOf cs))
           \<and> - 1074 \<le> exponent R \<and> 0 \<le> mantissa R"
    by (rule total64_sound [OF _ _ assms(1) _ _ n]) (use assms(3) in simp_all)
  then show ?thesis by simp
qed

lemma availableDuration64_sound:
  assumes "- 1074 \<le> exponent duration" and "6 < valueOf duration"
    and "valueOf duration \<le> 100000"
  shows "\<exists>A. dsub duration initialDelay64 = Some A
           \<and> \<bar>valueOf A - (valueOf duration - 6)\<bar> \<le> (valueOf duration - 6) / 2 ^ 53
           \<and> - 1074 \<le> exponent A \<and> 0 < mantissa A"
proof -
  define D where "D = valueOf duration - 6"
  have D: "0 < D" "D \<le> 100000" using assms(2,3) by (simp_all add: D_def)
  have v: "valueOf duration + valueOf (Double (- 6) 0) = D" by (simp add: D_def)
  have "\<bar>valueOf duration + valueOf (Double (- 6) 0)\<bar> \<le> 2 ^ 198"
    unfolding v using D by simp
  from dadd_sound [OF assms(1) _ this]
  obtain A where A: "dadd duration (Double (- 6) 0) = Some A"
    and e: "\<bar>valueOf A - D\<bar> \<le> \<bar>D\<bar> / 2 ^ 53" and x: "- 1074 \<le> exponent A"
    unfolding v by auto
  have "\<bar>D\<bar> = D" using D(1) by simp
  with e have e': "\<bar>valueOf A - D\<bar> \<le> D / 2 ^ 53" by (simp only:)
  have "D / 2 ^ 53 < D" using D(1) by (simp add: field_simps)
  with e' have "0 < valueOf A" by linarith
  then have "0 < mantissa A" by (rule mantissa_pos)
  moreover have "dsub duration initialDelay64 = Some A"
    using A by (simp add: dsub_def initialDelay64_def)
  ultimately show ?thesis using e' x unfolding D_def by blast
qed

lemma list_all2_right:
  "list_all2 (\<lambda>c d. P d) cs ds \<Longrightarrow> \<forall>d\<in>set ds. P d"
  by (induction rule: list_all2_induct) simp_all

lemma sum_list_valueOf_nonneg:
  "\<forall>c\<in>set cs. 0 \<le> mantissa c \<Longrightarrow> 0 \<le> sum_list (map valueOf cs)"
  by (rule sum_list_nonneg) (auto simp add: valueOf_nonneg)

lemma ratio_close:
  fixes S T d :: real
  assumes "0 < S" and "\<bar>T - S\<bar> \<le> d * S" and "0 \<le> d" and "d \<le> 1 / 2"
  shows "0 < T" and "S / T \<le> 2" and "0 \<le> S / T" and "\<bar>S / T - 1\<bar> \<le> 2 * d"
proof -
  have "d * S \<le> 1 / 2 * S" using assms(4,1) by (intro mult_right_mono) simp_all
  with assms(2) have half: "S \<le> 2 * T" by (simp add: abs_le_iff)
  with assms(1) show T: "0 < T" by linarith
  from half T show r2: "S / T \<le> 2" by (simp add: pos_divide_le_eq)
  from assms(1) T show r0: "0 \<le> S / T" by simp
  have "\<bar>S / T - 1\<bar> = \<bar>S - T\<bar> / T" using T by (simp add: field_simps abs_divide)
  also have "\<dots> \<le> d * S / T" using assms(2) T by (intro divide_right_mono) (simp_all add: abs_minus_commute)
  also have "\<dots> = d * (S / T)" by simp
  also have "\<dots> \<le> d * 2" using r2 assms(3) by (rule mult_left_mono)
  finally show "\<bar>S / T - 1\<bar> \<le> 2 * d" by simp
qed

lemma sum_close:
  fixes a r d n h Q :: real
  assumes a: "0 \<le> a" "a \<le> 100000" and r: "0 \<le> r" "r \<le> 2" "\<bar>r - 1\<bar> \<le> 2 * d"
    and d: "0 \<le> d" "d \<le> 1000 / 2 ^ 52" and n: "0 \<le> n" "n \<le> 1000"
    and h: "0 \<le> h" "h \<le> 1 / 2 ^ 100"
    and Q: "\<bar>Q - a * r\<bar> \<le> a * r / 2 ^ 51 + (2 * a + 1) * h * n"
  shows "\<bar>Q - a\<bar> \<le> 45 / 10 ^ 9"
proof -
  define G where "G = a * r"
  have G: "G \<le> 100000 * 2" unfolding G_def using a r by (intro mult_mono) simp_all
  have G0: "0 \<le> G" unfolding G_def using a r by simp
  have "G - a = a * (r - 1)" by (simp add: G_def algebra_simps)
  then have "\<bar>G - a\<bar> = a * \<bar>r - 1\<bar>" using a(1) by (simp only: abs_mult abs_of_nonneg)
  also have "\<dots> \<le> 100000 * (2 * (1000 / 2 ^ 52))"
    using a r(3) d by (intro mult_mono) simp_all
  finally have e1: "\<bar>G - a\<bar> \<le> 100000 * (2 * (1000 / 2 ^ 52))" .
  have e2: "(2 * a + 1) * h * n \<le> 200001 * (1 / 2 ^ 100) * 1000"
    using a h n by (intro mult_mono mult_nonneg_nonneg) simp_all
  have e3: "G / 2 ^ 51 \<le> 100000 * 2 / 2 ^ 51" using G by (intro divide_right_mono) simp_all
  have "\<bar>Q - a\<bar> \<le> \<bar>Q - G\<bar> + \<bar>G - a\<bar>" by linarith
  also have "\<dots> \<le> (100000 * 2 / 2 ^ 51 + 200001 * (1 / 2 ^ 100) * 1000)
                     + 100000 * (2 * (1000 / 2 ^ 52))"
    using Q e1 e2 e3 unfolding G_def [symmetric] by linarith
  also have "\<dots> \<le> 45 / 10 ^ 9" by simp
  finally show ?thesis .
qed

lemma running_close:
  fixes p Q d R :: real
  assumes "\<bar>R - (p + Q)\<bar> \<le> d * (p + Q)" and "0 \<le> d" and "d \<le> 1000 / 2 ^ 52"
    and "0 \<le> p" and "p \<le> 6" and "0 \<le> Q" and "Q \<le> 100001"
  shows "\<bar>R - (p + Q)\<bar> \<le> 23 / 10 ^ 9"
proof -
  have "d * (p + Q) \<le> 1000 / 2 ^ 52 * (6 + 100001)"
    using assms by (intro mult_mono) simp_all
  also have "\<dots> \<le> (23 :: real) / 10 ^ 9" by simp
  finally show ?thesis using assms(1) by linarith
qed

lemma total64_from:
  assumes "\<forall>d\<in>set ds. - 1074 \<le> exponent d \<and> 0 \<le> mantissa d"
    and "length ds \<le> 1000" and "sum_list (map valueOf ds) \<le> 100001"
    and "0 \<le> p" and "p \<le> 6"
  shows "\<exists>R. total64 (Double p 0) ds = Some R
           \<and> \<bar>valueOf R - (real_of_int p + sum_list (map valueOf ds))\<bar> \<le> 23 / 10 ^ 9"
proof -
  define Q where "Q = sum_list (map valueOf ds)"
  define d where "d = real (length ds) / 2 ^ 52"
  have Q0: "0 \<le> Q" unfolding Q_def using assms(1) by (intro sum_list_valueOf_nonneg) blast
  have Q1: "Q \<le> 100001" using assms(3) by (simp add: Q_def)
  have "real (length ds) \<le> 1000" using assms(2) by simp
  then have d: "0 \<le> d" "d \<le> 1000 / 2 ^ 52" by (simp_all add: d_def divide_right_mono)
  then have d1: "real (0 + length ds) / 2 ^ 52 \<le> 1" by (simp add: d_def)
  have big: "real_of_int p + sum_list (map valueOf ds) \<le> 2 ^ 196"
    using Q1 assms(5) unfolding Q_def [symmetric] by simp
  have "\<exists>R. total64 (Double p 0) ds = Some R
           \<and> \<bar>valueOf R - (real_of_int p + sum_list (map valueOf ds))\<bar>
               \<le> real (0 + length ds) / 2 ^ 52 * (real_of_int p + sum_list (map valueOf ds))
           \<and> - 1074 \<le> exponent R \<and> 0 \<le> mantissa R"
    by (rule total64_sound [OF _ _ assms(1) _ _ d1 big]) (use assms(4) in simp_all)
  then obtain R where R: "total64 (Double p 0) ds = Some R"
    and e: "\<bar>valueOf R - (real_of_int p + Q)\<bar> \<le> d * (real_of_int p + Q)"
    unfolding Q_def d_def by auto
  have "\<bar>valueOf R - (real_of_int p + Q)\<bar> \<le> 23 / 10 ^ 9"
    by (rule running_close [OF e d _ _ Q0 Q1]) (use assms(4,5) in simp_all)
  with R show ?thesis unfolding Q_def by blast
qed

lemma durationLoop64_sound:
  assumes cs: "\<forall>c\<in>set cs. - 1074 \<le> exponent c \<and> 0 \<le> mantissa c"
    and n: "length cs \<le> 1000" and S: "0 < sum_list (map valueOf cs)"
    and T: "\<bar>valueOf T - sum_list (map valueOf cs)\<bar>
              \<le> real (length cs) / 2 ^ 52 * sum_list (map valueOf cs)"
    and A: "0 \<le> mantissa A" "valueOf A \<le> 100000"
  shows "\<exists>ds. list_all2 (\<lambda>c d. secDur64 T A c = Some d) cs ds
            \<and> (\<forall>d\<in>set ds. - 1074 \<le> exponent d \<and> 0 \<le> mantissa d)
            \<and> \<bar>sum_list (map valueOf ds) - valueOf A\<bar> \<le> 45 / 10 ^ 9"
proof -
  define Sv where "Sv = sum_list (map valueOf cs)"
  define vT where "vT = valueOf T"
  define a where "a = valueOf A"
  define d where "d = real (length cs) / 2 ^ 52"
  define h where "h = (2::real) powi (- 1075)"
  define r where "r = Sv / vT"
  have nr: "real (length cs) \<le> 1000" using n by simp
  then have d: "0 \<le> d" "d \<le> 1000 / 2 ^ 52" by (simp_all add: d_def divide_right_mono)
  then have dh: "d \<le> 1 / 2" by simp
  have Sv: "0 < Sv" using S by (simp add: Sv_def)
  have eT: "\<bar>vT - Sv\<bar> \<le> d * Sv" using T by (simp add: vT_def Sv_def d_def)
  note rc = ratio_close [OF Sv eT d(1) dh]
  have vT: "0 < vT" by (rule rc(1))
  have r: "0 \<le> r" "r \<le> 2" "\<bar>r - 1\<bar> \<le> 2 * d" using rc(2-4) by (simp_all add: r_def)
  have mT: "0 < mantissa T" using vT unfolding vT_def by (rule mantissa_pos)
  have a: "0 \<le> a" "a \<le> 100000" using A by (simp_all add: a_def valueOf_nonneg)
  have a18: "valueOf A \<le> 2 ^ 18" using A(2) by simp
  have h: "0 \<le> h" "h \<le> 1 / 2 ^ 100" using eta_small by (simp_all add: h_def)
  let ?P = "\<lambda>c d. secDur64 T A c = Some d
           \<and> \<bar>valueOf d - a / vT * valueOf c\<bar> \<le> a / vT / 2 ^ 51 * valueOf c + (2 * a + 1) * h
           \<and> - 1074 \<le> exponent d \<and> 0 \<le> mantissa d"
  have "\<forall>c\<in>set cs. \<exists>d. ?P c d"
  proof
    fix c assume c: "c \<in> set cs"
    have c0: "0 \<le> mantissa c" using cs c by blast
    have "\<forall>c\<in>set cs. 0 \<le> valueOf c" using cs by (simp add: valueOf_nonneg)
    then have "valueOf c \<le> Sv" unfolding Sv_def using c by (rule member_le_sum)
    then have "valueOf c / vT \<le> Sv / vT" using vT by (intro divide_right_mono) simp_all
    with r(2) have "valueOf c / valueOf T \<le> 2" by (simp add: r_def vT_def)
    from secDur64_sound [OF c0 mT this A(1) a18]
    show "\<exists>d. ?P c d" unfolding a_def vT_def h_def .
  qed
  then obtain ds where ds: "list_all2 ?P cs ds" using list_all2_exists [of cs ?P] by blast
  have L1: "list_all2 (\<lambda>c d. secDur64 T A c = Some d) cs ds"
    using ds by (rule list_all2_mono) blast
  have L2: "list_all2 (\<lambda>c d. \<bar>valueOf d - a / vT * valueOf c\<bar>
                \<le> a / vT / 2 ^ 51 * valueOf c + (2 * a + 1) * h) cs ds"
    using ds by (rule list_all2_mono) blast
  have "list_all2 (\<lambda>c d. - 1074 \<le> exponent d \<and> 0 \<le> mantissa d) cs ds"
    using ds by (rule list_all2_mono) blast
  then have L3: "\<forall>d\<in>set ds. - 1074 \<le> exponent d \<and> 0 \<le> mantissa d"
    by (rule list_all2_right)
  define Q where "Q = sum_list (map valueOf ds)"
  have "\<bar>Q - a / vT * Sv\<bar> \<le> a / vT / 2 ^ 51 * Sv + (2 * a + 1) * h * real (length cs)"
    using sum_list_error [OF L2] by (simp add: Q_def Sv_def)
  moreover have "a / vT * Sv = a * r" by (simp add: r_def)
  moreover have "a / vT / 2 ^ 51 * Sv = a * r / 2 ^ 51" by (simp add: r_def)
  ultimately have eQ: "\<bar>Q - a * r\<bar> \<le> a * r / 2 ^ 51 + (2 * a + 1) * h * real (length cs)"
    by (simp only:)
  have "\<bar>Q - a\<bar> \<le> 45 / 10 ^ 9"
    by (rule sum_close [OF a r d _ nr h eQ]) simp
  with L1 L3 show ?thesis unfolding Q_def a_def by blast
qed

subsection \<open>The doubles against the exact durations\<close>

text \<open>
  The durations of the scroll expression in exact arithmetic (\<open>secDurOf\<close>, as they enter
  \<open>sectionsText\<close>) are the ones that the doubles approximate. For sections whose
  complexities are the values of the doubles, every duration computed in binary64 is within
  \<open>10^-7\<close> of the exact one, and the exact running time of the text ends at the
  duration of the audio itself.
\<close>

lemma section_close:
  fixes a D w q d h v u :: real
  assumes a: "0 \<le> a" "a \<le> 100000" and D: "0 \<le> D" "D \<le> 99994"
    and aD: "\<bar>a - D\<bar> \<le> 1 / 10 ^ 9"
    and w: "0 \<le> w" "w \<le> 2" and q: "\<bar>q - 1\<bar> \<le> d" and d: "0 \<le> d" "d \<le> 1000 / 2 ^ 52"
    and h: "0 \<le> h" "h \<le> 1 / 2 ^ 100"
    and v: "\<bar>v - a * w\<bar> \<le> a * w / 2 ^ 51 + (2 * a + 1) * h"
  shows "\<bar>v - w * q * D\<bar> \<le> 1 / 10 ^ 7"
proof -
  define G where "G = a * w"
  define u where "u = (1::real) / 10 ^ 9"
  have G: "G \<le> 100000 * 2" unfolding G_def using a w by (intro mult_mono) simp_all
  have e1: "G / 2 ^ 51 \<le> u"
  proof -
    have "G / 2 ^ 51 \<le> 100000 * 2 / 2 ^ 51" using G by (intro divide_right_mono) simp_all
    also have "\<dots> \<le> u" by (simp add: u_def)
    finally show ?thesis .
  qed
  have e2: "(2 * a + 1) * h \<le> u"
  proof -
    have "(2 * a + 1) * h \<le> 200001 * (1 / 2 ^ 100)" using a h by (intro mult_mono) simp_all
    also have "\<dots> \<le> u" by (simp add: u_def)
    finally show ?thesis .
  qed
  have e3: "D * \<bar>1 - q\<bar> \<le> 23 * u"
  proof -
    have "\<bar>1 - q\<bar> \<le> d" using q by (simp add: abs_minus_commute)
    then have "D * \<bar>1 - q\<bar> \<le> 99994 * (1000 / 2 ^ 52)" using D d by (intro mult_mono) simp_all
    also have "\<dots> \<le> 23 * u" by (simp add: u_def)
    finally show ?thesis .
  qed
  have "D - q * D = D * (1 - q)" by (simp add: algebra_simps)
  then have "\<bar>D - q * D\<bar> = D * \<bar>1 - q\<bar>" using D(1) by (simp only: abs_mult abs_of_nonneg)
  with e3 aD have e4: "\<bar>a - q * D\<bar> \<le> 24 * u" unfolding u_def [symmetric] by linarith
  have "G - w * q * D = w * (a - q * D)" by (simp add: G_def algebra_simps)
  then have "\<bar>G - w * q * D\<bar> = w * \<bar>a - q * D\<bar>" using w(1) by (simp only: abs_mult abs_of_nonneg)
  also have "\<dots> \<le> 2 * (24 * u)" using w e4 by (intro mult_mono) simp_all
  finally have e5: "\<bar>G - w * q * D\<bar> \<le> 48 * u" by simp
  have "\<bar>v - G\<bar> \<le> 2 * u" using v e1 e2 unfolding G_def [symmetric] by linarith
  with e5 have "\<bar>v - w * q * D\<bar> \<le> 100 * u" unfolding u_def by linarith
  moreover have "100 * u = 1 / 10 ^ 7" by (simp add: u_def)
  ultimately show ?thesis by (simp only:)
qed

lemma secDur64_close_to_exact:
  assumes cs: "\<forall>c\<in>set cs. - 1074 \<le> exponent c \<and> 0 \<le> mantissa c"
    and n: "length cs \<le> 1000" and S: "0 < sum_list (map valueOf cs)"
    and T: "\<bar>valueOf T - sum_list (map valueOf cs)\<bar>
              \<le> real (length cs) / 2 ^ 52 * sum_list (map valueOf cs)"
    and A: "0 \<le> mantissa A" "\<bar>valueOf A - D\<bar> \<le> 1 / 10 ^ 9" and D: "0 \<le> D" "D \<le> 99994"
    and c: "c \<in> set cs" and d: "secDur64 T A c = Some d"
  shows "\<bar>valueOf d - valueOf c / sum_list (map valueOf cs) * D\<bar> \<le> 1 / 10 ^ 7"
proof -
  define Sv where "Sv = sum_list (map valueOf cs)"
  define vT where "vT = valueOf T"
  define a where "a = valueOf A"
  define dl where "dl = real (length cs) / 2 ^ 52"
  define h where "h = (2::real) powi (- 1075)"
  define w where "w = valueOf c / vT"
  define q where "q = vT / Sv"
  have nr: "real (length cs) \<le> 1000" using n by simp
  then have dl: "0 \<le> dl" "dl \<le> 1000 / 2 ^ 52" by (simp_all add: dl_def divide_right_mono)
  then have dh: "dl \<le> 1 / 2" by simp
  have Sv: "0 < Sv" using S by (simp add: Sv_def)
  have eT: "\<bar>vT - Sv\<bar> \<le> dl * Sv" using T by (simp add: vT_def Sv_def dl_def)
  note rc = ratio_close [OF Sv eT dl(1) dh]
  have vT: "0 < vT" by (rule rc(1))
  have mT: "0 < mantissa T" using vT unfolding vT_def by (rule mantissa_pos)
  have a0: "0 \<le> a" using A(1) by (simp add: a_def valueOf_nonneg)
  have k: "(1::real) / 10 ^ 9 \<le> 6" by simp
  have a5: "a \<le> 100000" using A(2) D(2) k unfolding a_def by linarith
  have a18: "valueOf A \<le> 2 ^ 18" using a5 by (simp add: a_def)
  have h: "0 \<le> h" "h \<le> 1 / 2 ^ 100" using eta_small by (simp_all add: h_def)
  have c0: "0 \<le> mantissa c" using cs c by blast
  have "\<forall>c\<in>set cs. 0 \<le> valueOf c" using cs by (simp add: valueOf_nonneg)
  then have cS: "valueOf c \<le> Sv" unfolding Sv_def using c by (rule member_le_sum)
  then have "valueOf c / vT \<le> Sv / vT" using vT by (intro divide_right_mono) simp_all
  with rc(2) have w2: "w \<le> 2" by (simp add: w_def)
  have w0: "0 \<le> w" using c0 vT by (simp add: w_def valueOf_nonneg)
  have "valueOf c / valueOf T \<le> 2" using w2 by (simp add: w_def vT_def)
  from secDur64_sound [OF c0 mT this A(1) a18] d
  have e: "\<bar>valueOf d - a / vT * valueOf c\<bar> \<le> a / vT / 2 ^ 51 * valueOf c + (2 * a + 1) * h"
    unfolding a_def vT_def h_def by auto
  have "a / vT * valueOf c = a * w" by (simp add: w_def)
  moreover have "a / vT / 2 ^ 51 * valueOf c = a * w / 2 ^ 51" by (simp add: w_def)
  ultimately have e': "\<bar>valueOf d - a * w\<bar> \<le> a * w / 2 ^ 51 + (2 * a + 1) * h"
    using e by (simp only:)
  have "\<bar>q - 1\<bar> = \<bar>vT - Sv\<bar> / Sv" using Sv by (simp add: q_def field_simps abs_divide)
  also have "\<dots> \<le> dl * Sv / Sv" using eT Sv by (intro divide_right_mono) simp_all
  also have "\<dots> = dl" using Sv by simp
  finally have q: "\<bar>q - 1\<bar> \<le> dl" .
  have aD: "\<bar>a - D\<bar> \<le> 1 / 10 ^ 9" using A(2) by (simp add: a_def)
  have "\<bar>valueOf d - w * q * D\<bar> \<le> 1 / 10 ^ 7"
    by (rule section_close [OF a0 a5 D aD w0 w2 q dl h e'])
  moreover have "w * q = valueOf c / Sv" using vT Sv by (simp add: w_def q_def)
  ultimately show ?thesis by (simp add: Sv_def)
qed

lemma allocate64_parts:
  assumes "allocate64 cs duration = Some (A, ds, tEnd)"
  obtains T where "total64 (Double 0 0) cs = Some T"
    and "dsub duration initialDelay64 = Some A"
    and "list_all2 (\<lambda>c d. secDur64 T A c = Some d) cs ds"
    and "total64 initialDelay64 ds = Some tEnd"
proof -
  from assms obtain T where T: "total64 (Double 0 0) cs = Some T"
    by (auto simp add: allocate64_def totalComplexity64_def split: option.splits)
  with assms have A: "dsub duration initialDelay64 = Some A"
    and "durationLoop64 T A initialDelay64 cs = Some (ds, tEnd)"
    by (auto simp add: allocate64_def totalComplexity64_def split: option.splits)
  then have "list_all2 (\<lambda>c d. secDur64 T A c = Some d) cs ds"
    and "total64 initialDelay64 ds = Some tEnd"
    by (simp_all add: durationLoop64_split)
  with T A show ?thesis by (rule that)
qed

lemma durations64_refine_exact:
  assumes cs: "\<forall>c\<in>set cs. - 1074 \<le> exponent c \<and> 0 \<le> mantissa c \<and> valueOf c \<le> 2 ^ 64"
    and n: "length cs \<le> 1000" and S: "0 < sum_list (map valueOf cs)"
    and dur: "- 1074 \<le> exponent duration" "6 < valueOf duration" "valueOf duration \<le> 100000"
    and secs: "map complexity secs = map valueOf cs"
    and al: "allocate64 cs duration = Some (A, ds, tEnd)"
  shows "list_all2 (\<lambda>sec d. \<exists>x. secDurOf (totalComplexityOf secs)
                                  (valueOf duration - initialDelay) sec = Fin x
                             \<and> \<bar>valueOf d - x\<bar> \<le> 1 / 10 ^ 7) secs ds"
proof -
  have cs1: "\<forall>c\<in>set cs. - 1074 \<le> exponent c \<and> 0 \<le> mantissa c" using cs by blast
  have "\<forall>c\<in>set cs. valueOf c \<le> 2 ^ 64" using cs by blast
  then have "sum_list (map valueOf cs) \<le> real (length cs) * 2 ^ 64" by (rule sum_list_bounded)
  also have "\<dots> \<le> 1000 * 2 ^ 64" using n by simp
  also have "\<dots> \<le> (2::real) ^ 196" by simp
  finally have big: "sum_list (map valueOf cs) \<le> 2 ^ 196" .
  from al obtain T where T: "total64 (Double 0 0) cs = Some T"
    and A: "dsub duration initialDelay64 = Some A"
    and L: "list_all2 (\<lambda>c d. secDur64 T A c = Some d) cs ds"
    by (rule allocate64_parts)
  from totalComplexity64_sound [OF cs1 n big] T
  have eT: "\<bar>valueOf T - sum_list (map valueOf cs)\<bar>
               \<le> real (length cs) / 2 ^ 52 * sum_list (map valueOf cs)"
    by auto
  define D where "D = valueOf duration - 6"
  have D: "0 \<le> D" "D \<le> 99994" using dur(2,3) by (simp_all add: D_def)
  from availableDuration64_sound [OF dur] A
  have eA: "\<bar>valueOf A - D\<bar> \<le> D / 2 ^ 53" and mA: "0 \<le> mantissa A"
    unfolding D_def by auto
  have "D / 2 ^ 53 \<le> 99994 / 2 ^ 53" using D(2) by (rule divide_right_mono) simp
  also have "\<dots> \<le> (1::real) / 10 ^ 9" by simp
  finally have "D / 2 ^ 53 \<le> 1 / 10 ^ 9" .
  with eA have eA': "\<bar>valueOf A - D\<bar> \<le> 1 / 10 ^ 9" by (rule order_trans)
  have tot: "totalComplexityOf secs = sum_list (map valueOf cs)"
    using secs by (simp add: totalComplexityOf_sum)
  have len: "length secs = length cs" using secs by (rule map_eq_imp_length_eq)
  show ?thesis
  proof (rule list_all2_all_nthI)
    show "length secs = length ds" using len L by (simp add: list_all2_lengthD)
  next
    fix i assume i: "i < length secs"
    have ci: "cs ! i \<in> set cs" using i len by simp
    have "i < length cs" using i len by simp
    with L have di: "secDur64 T A (cs ! i) = Some (ds ! i)"
      by (rule list_all2_nthD)
    have "map complexity secs ! i = map valueOf cs ! i" using secs by simp
    then have cx: "complexity (secs ! i) = valueOf (cs ! i)" using i len by simp
    have "\<bar>valueOf (ds ! i) - valueOf (cs ! i) / sum_list (map valueOf cs) * D\<bar> \<le> 1 / 10 ^ 7"
      by (rule secDur64_close_to_exact [OF cs1 n S eT mA eA' D ci di])
    moreover have "secDurOf (totalComplexityOf secs) (valueOf duration - initialDelay) (secs ! i)
        = Fin (valueOf (cs ! i) / sum_list (map valueOf cs) * D)"
      using S by (simp add: tot secDurOf_fin cx D_def initialDelay_def)
    ultimately show "\<exists>x. secDurOf (totalComplexityOf secs)
                            (valueOf duration - initialDelay) (secs ! i) = Fin x
                       \<and> \<bar>valueOf (ds ! i) - x\<bar> \<le> 1 / 10 ^ 7"
      by blast
  qed
qed

lemma text_time_exact:
  assumes "map complexity secs = map valueOf cs" and "0 < sum_list (map valueOf cs)"
  shows "snd (sectionsText (totalComplexityOf secs) (duration - initialDelay)
                (acc, Fin initialDelay) secs) = Fin duration"
proof -
  have tot: "totalComplexityOf secs = sum_list (map valueOf cs)"
    using assms(1) by (simp add: totalComplexityOf_sum)
  then have "totalComplexityOf secs \<noteq> 0" using assms(2) by simp
  from running_time_fin [OF this]
  show ?thesis using assms(2) by (simp add: tot [symmetric] totalComplexityOf_sum)
qed

text \<open>
  Claim C2, as amended. For at most 1000 sections whose complexities are doubles from 0 to
  \<open>2^64\<close> with a positive sum, and an audio duration above the initial delay of 6 seconds and up
  to 100000 seconds, the loop computes in binary64 a finite duration for every section, and the
  durations add up to the available duration within \<open>10^-6\<close>: their exact sum, their sum
  in doubles, and the time \<open>t\<close> reached after the last section, which is the duration of the audio
  within \<open>10^-6\<close>. The available duration is itself the rounded difference of
  the audio duration and the delay.
\<close>

theorem durations_within_tolerance:
  assumes cs: "\<forall>c\<in>set cs. - 1074 \<le> exponent c \<and> 0 \<le> mantissa c \<and> valueOf c \<le> 2 ^ 64"
    and n: "length cs \<le> 1000" and S: "0 < sum_list (map valueOf cs)"
    and dur: "- 1074 \<le> exponent duration" "6 < valueOf duration" "valueOf duration \<le> 100000"
  shows "\<exists>A ds tEnd s. allocate64 cs duration = Some (A, ds, tEnd)
           \<and> length ds = length cs
           \<and> total64 (Double 0 0) ds = Some s
           \<and> \<bar>valueOf A - (valueOf duration - 6)\<bar> \<le> 1 / 10 ^ 6
           \<and> \<bar>sum_list (map valueOf ds) - valueOf A\<bar> \<le> 1 / 10 ^ 6
           \<and> \<bar>valueOf s - valueOf A\<bar> \<le> 1 / 10 ^ 6
           \<and> \<bar>valueOf tEnd - valueOf duration\<bar> \<le> 1 / 10 ^ 6"
proof -
  have cs1: "\<forall>c\<in>set cs. - 1074 \<le> exponent c \<and> 0 \<le> mantissa c" using cs by blast
  have "\<forall>c\<in>set cs. valueOf c \<le> 2 ^ 64" using cs by blast
  then have "sum_list (map valueOf cs) \<le> real (length cs) * 2 ^ 64" by (rule sum_list_bounded)
  also have "\<dots> \<le> 1000 * 2 ^ 64" using n by simp
  also have "\<dots> \<le> (2::real) ^ 196" by simp
  finally have big: "sum_list (map valueOf cs) \<le> 2 ^ 196" .
  from totalComplexity64_sound [OF cs1 n big]
  obtain T where T: "total64 (Double 0 0) cs = Some T"
    and eT: "\<bar>valueOf T - sum_list (map valueOf cs)\<bar>
               \<le> real (length cs) / 2 ^ 52 * sum_list (map valueOf cs)"
    by blast
  from availableDuration64_sound [OF dur]
  obtain A where A: "dsub duration initialDelay64 = Some A"
    and eA: "\<bar>valueOf A - (valueOf duration - 6)\<bar> \<le> (valueOf duration - 6) / 2 ^ 53"
    and mA: "0 < mantissa A"
    by blast
  define D where "D = valueOf duration - 6"
  define a where "a = valueOf A"
  define u where "u = (1::real) / 10 ^ 9"
  have u: "0 \<le> u" "45 * u \<le> 1" by (simp_all add: u_def)
  have u6: "1000 * u = 1 / 10 ^ 6" by (simp add: u_def)
  have D: "0 < D" "D \<le> 99994" using dur(2,3) by (simp_all add: D_def)
  have "D / 2 ^ 53 \<le> 99994 / 2 ^ 53" using D(2) by (rule divide_right_mono) simp
  also have "\<dots> \<le> u" by (simp add: u_def)
  finally have D53: "D / 2 ^ 53 \<le> u" .
  have eA': "\<bar>a - D\<bar> \<le> u" using eA D53 unfolding a_def D_def by linarith
  have a5: "valueOf A \<le> 100000" using eA' D(2) u unfolding a_def by linarith
  have mA0: "0 \<le> mantissa A" using mA by simp
  from durationLoop64_sound [OF cs1 n S eT mA0 a5]
  obtain ds where L: "list_all2 (\<lambda>c d. secDur64 T A c = Some d) cs ds"
    and ok: "\<forall>d\<in>set ds. - 1074 \<le> exponent d \<and> 0 \<le> mantissa d"
    and eQ0: "\<bar>sum_list (map valueOf ds) - a\<bar> \<le> 45 / 10 ^ 9"
    unfolding a_def by blast
  define Q where "Q = sum_list (map valueOf ds)"
  have eQ: "\<bar>Q - a\<bar> \<le> 45 * u" using eQ0 by (simp add: Q_def u_def)
  have len: "length ds = length cs" using L by (simp add: list_all2_lengthD)
  have nd: "length ds \<le> 1000" using n len by simp
  have Q1: "sum_list (map valueOf ds) \<le> 100001"
    using eQ a5 u unfolding a_def Q_def by linarith
  from total64_from [OF ok nd Q1, of 0]
  obtain s where s: "total64 (Double 0 0) ds = Some s"
    and es0: "\<bar>valueOf s - (real_of_int 0 + Q)\<bar> \<le> 23 / 10 ^ 9"
    unfolding Q_def by auto
  from total64_from [OF ok nd Q1, of 6]
  obtain tEnd where t: "total64 (Double 6 0) ds = Some tEnd"
    and et0: "\<bar>valueOf tEnd - (real_of_int 6 + Q)\<bar> \<le> 23 / 10 ^ 9"
    unfolding Q_def by auto
  have es: "\<bar>valueOf s - Q\<bar> \<le> 23 * u" using es0 by (simp add: u_def)
  have et: "\<bar>valueOf tEnd - (6 + Q)\<bar> \<le> 23 * u" using et0 by (simp add: u_def)
  have "durationLoop64 T A initialDelay64 cs = Some (ds, tEnd)"
    using L t by (simp add: durationLoop64_split initialDelay64_def)
  then have al: "allocate64 cs duration = Some (A, ds, tEnd)"
    by (simp add: allocate64_def totalComplexity64_def T A)
  have "\<bar>a - D\<bar> \<le> 1000 * u" using eA' u by linarith
  then have c1: "\<bar>valueOf A - (valueOf duration - 6)\<bar> \<le> 1 / 10 ^ 6"
    unfolding u6 a_def D_def .
  have "\<bar>Q - a\<bar> \<le> 1000 * u" using eQ u by linarith
  then have c2: "\<bar>sum_list (map valueOf ds) - valueOf A\<bar> \<le> 1 / 10 ^ 6"
    unfolding u6 a_def Q_def .
  have "\<bar>valueOf s - a\<bar> \<le> 1000 * u" using es eQ u by linarith
  then have c3: "\<bar>valueOf s - valueOf A\<bar> \<le> 1 / 10 ^ 6"
    unfolding u6 a_def .
  have "\<bar>valueOf tEnd - (D + 6)\<bar> \<le> 1000 * u" using et eQ eA' u by linarith
  moreover have "D + 6 = valueOf duration" by (simp add: D_def)
  ultimately have c4: "\<bar>valueOf tEnd - valueOf duration\<bar> \<le> 1 / 10 ^ 6"
    unfolding u6 by (simp only:)
  from al len s c1 c2 c3 c4 show ?thesis by blast
qed

theorem durations_within_tolerance_witness:
  "- 1074 \<le> exponent (Double 1 0) \<and> 0 \<le> mantissa (Double 1 0)
   \<and> valueOf (Double 1 0) \<le> 2 ^ 64
   \<and> length [Double 1 0, Double 1 0] \<le> 1000
   \<and> 0 < sum_list (map valueOf [Double 1 0, Double 1 0])
   \<and> - 1074 \<le> exponent (Double 16 0) \<and> 6 < valueOf (Double 16 0)
   \<and> valueOf (Double 16 0) \<le> 100000
   \<and> (\<exists>A ds tEnd s. allocate64 [Double 1 0, Double 1 0] (Double 16 0) = Some (A, ds, tEnd)
           \<and> length ds = length [Double 1 0, Double 1 0]
           \<and> total64 (Double 0 0) ds = Some s
           \<and> \<bar>valueOf A - (valueOf (Double 16 0) - 6)\<bar> \<le> 1 / 10 ^ 6
           \<and> \<bar>sum_list (map valueOf ds) - valueOf A\<bar> \<le> 1 / 10 ^ 6
           \<and> \<bar>valueOf s - valueOf A\<bar> \<le> 1 / 10 ^ 6
           \<and> \<bar>valueOf tEnd - valueOf (Double 16 0)\<bar> \<le> 1 / 10 ^ 6)"
  using durations_within_tolerance [of "[Double 1 0, Double 1 0]" "Double 16 0"]
  by simp

lemma sevenEqual_allocation:
  "allocate64 sevenEqual (Double 50000000006 0)
     = Some (Double 50000000000 0, replicate 7 (Double 7489828571428571 (- 20)),
             Double 6553600000786431 (- 17))"
  by code_simp

lemma sevenEqual_sum:
  "total64 (Double 0 0) (replicate 7 (Double 7489828571428571 (- 20)))
     = Some (Double 6553599999999999 (- 17))"
  by code_simp

lemma valueOf_neg: "valueOf (Double m (- numeral k)) = real_of_int m / 2 ^ numeral k"
  by (simp add: valueOf_def power_int_minus field_simps)

text \<open>
  Claim C2 as stated fails: without a bound on the duration the tolerance is exceeded, and
  within it the sum is not exact. Seven sections of complexity 1 and an audio of 50000000006 seconds: the available
  duration is 50000000000, every section is given \<open>7489828571428571 * 2^-20\<close>, and the seven
  durations fall short of the available duration by more than \<open>10^-6\<close>, as an exact sum
  (by \<open>2.86 * 10^-6\<close>), as a sum in doubles and as the time reached after the last section
  (by \<open>7.6 * 10^-6\<close>).
\<close>

theorem duration_tolerance_counterexample:
  "0 < sum_list (map valueOf sevenEqual) \<and> 6 < valueOf (Double 50000000006 0)
   \<and> allocate64 sevenEqual (Double 50000000006 0)
       = Some (Double 50000000000 0, replicate 7 (Double 7489828571428571 (- 20)),
               Double 6553600000786431 (- 17))
   \<and> total64 (Double 0 0) (replicate 7 (Double 7489828571428571 (- 20)))
       = Some (Double 6553599999999999 (- 17))
   \<and> 1 / 10 ^ 6 < \<bar>sum_list (map valueOf (replicate 7 (Double 7489828571428571 (- 20))))
                      - valueOf (Double 50000000000 0)\<bar>
   \<and> 1 / 10 ^ 6 < \<bar>valueOf (Double 6553599999999999 (- 17)) - valueOf (Double 50000000000 0)\<bar>
   \<and> 1 / 10 ^ 6 < \<bar>valueOf (Double 6553600000786431 (- 17)) - valueOf (Double 50000000006 0)\<bar>"
  by (simp add: sevenEqual_allocation sevenEqual_sum valueOf_neg)
     (simp add: sevenEqual_def sum_list_replicate)

text \<open>
  Three sections of complexity 1 and an audio of 16 seconds: the time after the last section
  is \<open>15.999999999999996\<close>, not 16.
\<close>

lemma three_sections_end_early:
  "allocate64 (replicate 3 (Double 1 0)) (Double 16 0)
     = Some (Double 10 0, replicate 3 (Double 7505999378950826 (- 51)),
             Double 9007199254740990 (- 49))
   \<and> valueOf (Double 9007199254740990 (- 49)) < valueOf (Double 16 0)"
  by (rule conjI, code_simp) (simp add: valueOf_neg)

end
